theory Spec2Isabelle
  imports Main
begin

section \<open>imagen.dataviews: DataView and IndexedView\<close>

text \<open>
  A shallow embedding of \<^verbatim>\<open>src/imagen/dataviews.py\<close>. The module is read with the
  semantics of Python 3: a comparison with \<^verbatim>\<open>None\<close> raises \<^verbatim>\<open>TypeError\<close>, a name that no
  scope binds raises \<^verbatim>\<open>NameError\<close>, and \<^verbatim>\<open>collections.OrderedDict\<close> exists, so that
  \<^verbatim>\<open>map_type\<close> is \<^verbatim>\<open>OrderedDict\<close>.

  Index values are drawn from a linearly ordered type \<open>'k\<close> (the spec's "orderable index
  value": times, numbers); \<^verbatim>\<open>None\<close> as an endpoint of a slice is the value \<open>None\<close> of
  \<open>'k option\<close>. Floating-point \<^verbatim>\<open>nan\<close> is outside the model.
\<close>

subsection \<open>Exceptions\<close>

datatype error =
  NameError | TypeError | ValueError | IndexError | AttributeError | NotImplementedError

subsection \<open>Arrays and the object store\<close>

text \<open>
  A snapshot is a two-dimensional numpy array: its \<^verbatim>\<open>shape\<close> and its elements in row-major
  order. Arrays are mutable objects, so the program holds references to them; the store
  maps a reference to the array's current value. A Python value that is passed as
  \<^verbatim>\<open>data\<close> is either \<^verbatim>\<open>None\<close> or a reference to an array.
\<close>

datatype 'a ndarray = NDArray (shape: "nat \<times> nat") (elems: "'a list")

type_synonym addr = nat

type_synonym 'a heap = "'a ndarray list"

datatype pyval = PNone | PArr addr

definition heap_get :: "'a heap \<Rightarrow> addr \<Rightarrow> 'a ndarray option" where
  "heap_get h a = (if a < length h then Some (h ! a) else None)"

text \<open>The caller writes into an array it holds: \<^verbatim>\<open>arr[...] = ...\<close>.\<close>

definition heap_set :: "'a heap \<Rightarrow> addr \<Rightarrow> 'a ndarray \<Rightarrow> 'a heap" where
  "heap_set h a arr = h[a := arr]"

definition deref :: "'a heap \<Rightarrow> pyval \<Rightarrow> 'a ndarray option" where
  "deref h v = (case v of PNone \<Rightarrow> None | PArr a \<Rightarrow> heap_get h a)"

text \<open>
  \<^verbatim>\<open>data.copy()\<close>: numpy allocates a new array holding the same shape and elements and
  returns the reference to it. A value that is no array (\<^verbatim>\<open>None\<close>) has no \<^verbatim>\<open>copy\<close>
  attribute: \<^verbatim>\<open>AttributeError\<close>, and nothing is allocated. A reference beyond the store
  denotes no object of the program; it is given the same outcome.
\<close>

definition py_copy :: "'a heap \<Rightarrow> pyval \<Rightarrow> error + ('a heap \<times> pyval)" where
  "py_copy h v =
     (case deref h v of
        None \<Rightarrow> Inl AttributeError
      | Some arr \<Rightarrow> Inr (h @ [arr], PArr (length h)))"

text \<open>
  \<^verbatim>\<open>arr[(i, j)]\<close>: numpy counts a negative index from the end of its axis and raises
  \<^verbatim>\<open>IndexError\<close> outside \<open>[-n, n)\<close> on an axis of length \<open>n\<close>.
\<close>

definition nd_axis :: "nat \<Rightarrow> int \<Rightarrow> nat option" where
  "nd_axis n i =
     (let i' = (if i < 0 then i + int n else i)
      in if 0 \<le> i' \<and> i' < int n then Some (nat i') else None)"

definition nd_getitem :: "'a ndarray \<Rightarrow> int \<times> int \<Rightarrow> error + 'a" where
  "nd_getitem arr idx =
     (case shape arr of (dim1, dim2) \<Rightarrow>
      case idx of (i, j) \<Rightarrow>
      case (nd_axis dim1 i, nd_axis dim2 j) of
        (Some r, Some c) \<Rightarrow>
          (if r * dim2 + c < length (elems arr) then Inr (elems arr ! (r * dim2 + c))
           else Inl IndexError)
      | _ \<Rightarrow> Inl IndexError)"

subsection \<open>Python lists, \<^verbatim>\<open>bisect\<close> and \<^verbatim>\<open>OrderedDict\<close>\<close>

text \<open>\<^verbatim>\<open>xs.insert(i, x)\<close> for \<open>i \<ge> 0\<close>; beyond the end it appends.\<close>

definition list_insert :: "'a list \<Rightarrow> nat \<Rightarrow> 'a \<Rightarrow> 'a list" where
  "list_insert xs i x = take i xs @ x # drop i xs"

text \<open>\<^verbatim>\<open>xs[i]\<close> for \<open>i \<ge> 0\<close>.\<close>

definition list_getitem :: "'a list \<Rightarrow> nat \<Rightarrow> error + 'a" where
  "list_getitem xs i = (if i < length xs then Inr (xs ! i) else Inl IndexError)"

text \<open>\<^verbatim>\<open>xs[-1]\<close>.\<close>

definition list_last :: "'a list \<Rightarrow> error + 'a" where
  "list_last xs = (case xs of [] \<Rightarrow> Inl IndexError | _ \<Rightarrow> Inr (last xs))"

text \<open>\<^verbatim>\<open>xs.index(x)\<close>: the first position holding \<open>x\<close>, or \<^verbatim>\<open>ValueError\<close>.\<close>

fun list_index :: "'a list \<Rightarrow> 'a \<Rightarrow> error + nat" where
  "list_index [] x = Inl ValueError"
| "list_index (y # ys) x =
     (if y = x then Inr 0
      else case list_index ys x of Inl e \<Rightarrow> Inl e | Inr i \<Rightarrow> Inr (Suc i))"

text \<open>
  \<^verbatim>\<open>bisect.bisect_left(a, x)\<close> of the standard library, with \<open>lo = 0\<close> and \<open>hi = len(a)\<close>:
  \<^verbatim>\<open>
  while lo < hi:
      mid = (lo + hi) // 2
      if a[mid] < x: lo = mid + 1
      else: hi = mid
  return lo
  \<close>
  Every read \<open>a[mid]\<close> is in range as long as \<open>hi \<le> len(a)\<close>.
\<close>

function bisect_loop :: "'k::linorder list \<Rightarrow> 'k \<Rightarrow> nat \<Rightarrow> nat \<Rightarrow> nat" where
  "bisect_loop a x lo hi =
     (if lo < hi then
        (let mid = (lo + hi) div 2
         in if a ! mid < x then bisect_loop a x (mid + 1) hi
            else bisect_loop a x lo mid)
      else lo)"
  by pat_completeness auto
termination
  by (relation "measure (\<lambda>(a, x, lo, hi). hi - lo)") auto

declare bisect_loop.simps [simp del]

definition bisect_left :: "'k::linorder list \<Rightarrow> 'k \<Rightarrow> nat" where
  "bisect_left a x = bisect_loop a x 0 (length a)"

text \<open>
  \<^verbatim>\<open>xs[slice(start, stop, step)]\<close> for \<open>start\<close> and \<open>stop\<close> that are \<^verbatim>\<open>None\<close> or a position
  \<open>\<ge> 0\<close> (the only ones \<^verbatim>\<open>_bisect_slice\<close> builds). A step of \<^verbatim>\<open>None\<close> is 1, a step of 0
  raises \<^verbatim>\<open>ValueError\<close>; an endpoint beyond the list is clipped to it; with a negative step
  the list is walked downwards and the defaults are the last element and the position
  before the first.
\<close>

definition slice_start :: "int \<Rightarrow> int \<Rightarrow> nat option \<Rightarrow> int" where
  "slice_start n stp start =
     (case start of
        None \<Rightarrow> (if stp < 0 then n - 1 else 0)
      | Some s \<Rightarrow> (if n \<le> int s then (if stp < 0 then n - 1 else n) else int s))"

definition slice_stop :: "int \<Rightarrow> int \<Rightarrow> nat option \<Rightarrow> int" where
  "slice_stop n stp stop =
     (case stop of
        None \<Rightarrow> (if stp < 0 then - 1 else n)
      | Some s \<Rightarrow> (if n \<le> int s then (if stp < 0 then n - 1 else n) else int s))"

definition slice_length :: "int \<Rightarrow> int \<Rightarrow> int \<Rightarrow> nat" where
  "slice_length lo hi stp =
     (if stp < 0 then (if hi < lo then nat ((lo - hi - 1) div (- stp) + 1) else 0)
      else (if lo < hi then nat ((hi - lo - 1) div stp + 1) else 0))"

definition list_slice :: "'a list \<Rightarrow> nat option \<Rightarrow> nat option \<Rightarrow> int option \<Rightarrow> error + 'a list" where
  "list_slice xs start stop step =
     (let n = int (length xs);
          stp = (case step of None \<Rightarrow> 1 | Some s \<Rightarrow> s)
      in if stp = 0 then Inl ValueError
         else
           (let lo = slice_start n stp start;
                hi = slice_stop n stp stop
            in Inr (map (\<lambda>i. xs ! nat (lo + int i * stp)) [0..<slice_length lo hi stp])))"

text \<open>
  \<^verbatim>\<open>OrderedDict(pairs)\<close>: the pairs are stored one after the other; a key that is already
  present keeps its position and takes the new value.
\<close>

fun od_setitem :: "('k \<times> 'v) list \<Rightarrow> 'k \<Rightarrow> 'v \<Rightarrow> ('k \<times> 'v) list" where
  "od_setitem [] k v = [(k, v)]"
| "od_setitem (p # ps) k v = (if fst p = k then (k, v) # ps else p # od_setitem ps k v)"

definition OrderedDict :: "('k \<times> 'v) list \<Rightarrow> ('k \<times> 'v) list" where
  "OrderedDict pairs = foldl (\<lambda>od (k, v). od_setitem od k v) [] pairs"

text \<open>Python 3's \<^verbatim>\<open>a < b\<close> on index values: \<^verbatim>\<open>None\<close> is not orderable.\<close>

fun py_lt :: "'k::linorder option \<Rightarrow> 'k option \<Rightarrow> error + bool" where
  "py_lt (Some a) (Some b) = Inr (a < b)"
| "py_lt _ _ = Inl TypeError"

text \<open>
  A list comprehension \<^verbatim>\<open>[x for x in xs if cond]\<close> whose condition may raise: the first
  exception ends it.
\<close>

fun comprehension_if :: "('a \<Rightarrow> error + bool) \<Rightarrow> 'a list \<Rightarrow> error + 'a list" where
  "comprehension_if cond [] = Inr []"
| "comprehension_if cond (x # xs) =
     (case cond x of
        Inl e \<Rightarrow> Inl e
      | Inr b \<Rightarrow>
          (case comprehension_if cond xs of
             Inl e \<Rightarrow> Inl e
           | Inr ys \<Rightarrow> Inr (if b then x # ys else ys)))"

subsection \<open>DataView\<close>

text \<open>
  Of the declared parameters only \<^verbatim>\<open>bounds\<close> is read by a method; \<^verbatim>\<open>timestamp\<close>,
  \<^verbatim>\<open>cyclic_interval\<close>, \<^verbatim>\<open>roi\<close>, \<^verbatim>\<open>labels\<close> and \<^verbatim>\<open>style\<close> are metadata that no method of the
  module touches. The bounds object is opaque: a value of type \<open>'b\<close>.
\<close>

record 'b DataView =
  dv_bounds :: 'b
  dv_data :: pyval

text \<open>\<^verbatim>\<open>__init__\<close>: \<^verbatim>\<open>self._data = None\<close>.\<close>

definition DataView_init :: "'b \<Rightarrow> 'b DataView" where
  "DataView_init bnds = \<lparr>dv_bounds = bnds, dv_data = PNone\<rparr>"

text \<open>\<^verbatim>\<open>record\<close>: \<^verbatim>\<open>self._data = data\<close>, the caller's reference itself.\<close>

definition DataView_record :: "'b DataView \<Rightarrow> pyval \<Rightarrow> 'b DataView" where
  "DataView_record v d = v\<lparr>dv_data := d\<rparr>"

text \<open>
  \<^verbatim>\<open>sample\<close>: \<^verbatim>\<open>return data[self._coords2matrixidx(coords, data)]\<close>. The subscripted
  expression is evaluated first, and it is the name \<^verbatim>\<open>data\<close>: the method's locals are
  \<^verbatim>\<open>self\<close> and \<^verbatim>\<open>coords\<close>, the module binds \<^verbatim>\<open>param\<close>, \<^verbatim>\<open>bisect\<close>,
  \<^verbatim>\<open>SheetCoordinateSystem\<close>, \<^verbatim>\<open>OrderedDict\<close> and its four classes, and \<^verbatim>\<open>data\<close> is no
  builtin. The lookup raises \<^verbatim>\<open>NameError\<close> before the coordinate hook \<open>c2m\<close> or the stored
  snapshot is read.
\<close>

definition DataView_sample ::
  "('b \<Rightarrow> 'c \<Rightarrow> 'a ndarray \<Rightarrow> error + int \<times> int) \<Rightarrow> 'a heap \<Rightarrow> 'b DataView \<Rightarrow> 'c \<Rightarrow> error + 'a" where
  "DataView_sample c2m h v coords = Inl NameError"

text \<open>\<^verbatim>\<open>view\<close>: \<^verbatim>\<open>return (self._data, self.bounds)\<close>.\<close>

definition DataView_view :: "'b DataView \<Rightarrow> error + pyval \<times> 'b" where
  "DataView_view v = Inr (dv_data v, dv_bounds v)"

subsection \<open>IndexedView\<close>

record ('b, 'k) IndexedView =
  iv_bounds :: 'b
  indexed_feature :: string
  indexed_ascending :: bool
  iv_data :: "pyval list"
  iv_index_labels :: "'k list"

text \<open>\<^verbatim>\<open>__init__\<close>: both sequences start empty.\<close>

definition IndexedView_init :: "'b \<Rightarrow> bool \<Rightarrow> ('b, 'k) IndexedView" where
  "IndexedView_init bnds asc =
     \<lparr>iv_bounds = bnds, indexed_feature = ''time'', indexed_ascending = asc,
      iv_data = [], iv_index_labels = []\<rparr>"

text \<open>
  A method that changes the object returns the store and the object as they are when it
  returns or raises, next to its outcome: a raise does not undo what was done before it.
\<close>

type_synonym ('a, 'b, 'k) state = "'a heap \<times> ('b, 'k) IndexedView"

text \<open>
  \<^verbatim>\<open>_bisect_insert\<close>: the position is computed, then the argument \<^verbatim>\<open>data.copy()\<close> of the
  first \<^verbatim>\<open>insert\<close> is evaluated, then the two lists are changed one after the other.
\<close>

definition bisect_insert ::
  "('a, 'b, 'k::linorder) state \<Rightarrow> pyval \<Rightarrow> 'k \<Rightarrow> (error + unit) \<times> ('a, 'b, 'k) state" where
  "bisect_insert s d index_value =
     (case s of (h, v) \<Rightarrow>
      let insert_index = bisect_left (iv_index_labels v) index_value
      in case py_copy h d of
           Inl e \<Rightarrow> (Inl e, (h, v))
         | Inr (h1, c) \<Rightarrow>
             (let v1 = v\<lparr>iv_data := list_insert (iv_data v) insert_index c\<rparr>;
                  v2 = v1\<lparr>iv_index_labels := list_insert (iv_index_labels v1) insert_index index_value\<rparr>
              in (Inr (), (h1, v2))))"

text \<open>\<^verbatim>\<open>record\<close>.\<close>

definition IndexedView_record ::
  "('a, 'b, 'k::linorder) state \<Rightarrow> pyval \<Rightarrow> 'k \<Rightarrow> (error + unit) \<times> ('a, 'b, 'k) state" where
  "IndexedView_record s d index_value =
     (case s of (h, v) \<Rightarrow>
      if indexed_ascending v then bisect_insert s d index_value
      else case py_copy h d of
             Inl e \<Rightarrow> (Inl e, (h, v))
           | Inr (h1, c) \<Rightarrow>
               (let v1 = v\<lparr>iv_data := iv_data v @ [c]\<rparr>;
                    v2 = v1\<lparr>iv_index_labels := iv_index_labels v1 @ [index_value]\<rparr>
                in (Inr (), (h1, v2))))"

text \<open>
  A sequence of \<^verbatim>\<open>record\<close> calls. A call that raises leaves the object as it is at the
  raise, and the caller may go on with the next call.
\<close>

fun record_calls ::
  "('a, 'b, 'k::linorder) state \<Rightarrow> (pyval \<times> 'k) list \<Rightarrow> ('a, 'b, 'k) state" where
  "record_calls s [] = s"
| "record_calls s ((d, k) # calls) = record_calls (snd (IndexedView_record s d k)) calls"

text \<open>
  \<^verbatim>\<open>_bisect_index\<close>: \<^verbatim>\<open>i != len(...) and self._index_labels[i] == index_value\<close>, else
  \<^verbatim>\<open>raise ValueError\<close>.
\<close>

definition bisect_index :: "('b, 'k::linorder) IndexedView \<Rightarrow> 'k \<Rightarrow> error + nat" where
  "bisect_index v index_value =
     (let i = bisect_left (iv_index_labels v) index_value
      in if i \<noteq> length (iv_index_labels v) \<and> iv_index_labels v ! i = index_value then Inr i
         else Inl ValueError)"

text \<open>
  \<^verbatim>\<open>_bisect_slice\<close>: the same slice object cuts both lists; the first cut raises for a
  step of 0.
\<close>

definition bisect_slice ::
  "('b, 'k::linorder) IndexedView \<Rightarrow> 'k option \<Rightarrow> 'k option \<Rightarrow> int option \<Rightarrow>
     error + ('k \<times> pyval) list" where
  "bisect_slice v start stop step =
     (let start_ind = (case start of None \<Rightarrow> None
                       | Some a \<Rightarrow> Some (bisect_left (iv_index_labels v) a));
          stop_ind = (case stop of None \<Rightarrow> None
                      | Some b \<Rightarrow> Some (bisect_left (iv_index_labels v) b))
      in case list_slice (iv_index_labels v) start_ind stop_ind step of
           Inl e \<Rightarrow> Inl e
         | Inr ls \<Rightarrow>
             (case list_slice (iv_data v) start_ind stop_ind step of
                Inl e \<Rightarrow> Inl e
              | Inr ds \<Rightarrow> Inr (OrderedDict (zip ls ds))))"

text \<open>
  The filter of the unordered slice, \<^verbatim>\<open>min_val < l < max_val\<close>, inside
  \<^verbatim>\<open>[pair for pair in zip(...) if ...]\<close>. The comprehension binds \<^verbatim>\<open>pair\<close> only; \<^verbatim>\<open>l\<close> is
  bound neither in \<^verbatim>\<open>__getitem__\<close> nor in the module nor as a builtin. The chained
  comparison evaluates \<^verbatim>\<open>min_val\<close>, then \<^verbatim>\<open>l\<close>: \<^verbatim>\<open>NameError\<close>, for every pair.
\<close>

definition unordered_filter :: "'k option \<Rightarrow> 'k option \<Rightarrow> 'k \<times> pyval \<Rightarrow> error + bool" where
  "unordered_filter min_val max_val pair = Inl NameError"

text \<open>
  \<^verbatim>\<open>__getitem__\<close>. The argument is a slice object or any other value, taken as an index
  value; the result is one snapshot or an ordered mapping.
\<close>

datatype 'k indexarg = Key 'k | Slice "'k option" "'k option" "int option"

datatype 'k item = Snapshot pyval | Mapping "('k \<times> pyval) list"

definition IndexedView_getitem ::
  "('b, 'k::linorder) IndexedView \<Rightarrow> 'k indexarg \<Rightarrow> error + 'k item" where
  "IndexedView_getitem v indexslice =
     (case indexslice of
        Key k \<Rightarrow>
          (case (if indexed_ascending v then bisect_index v k
                 else list_index (iv_index_labels v) k) of
             Inl e \<Rightarrow> Inl e
           | Inr matched_index \<Rightarrow>
               (case list_getitem (iv_data v) matched_index of
                  Inl e \<Rightarrow> Inl e
                | Inr d \<Rightarrow> Inr (Snapshot d)))
      | Slice start stop step \<Rightarrow>
          (if indexed_ascending v then
             (case bisect_slice v start stop step of
                Inl e \<Rightarrow> Inl e
              | Inr od \<Rightarrow> Inr (Mapping od))
           else
             (case py_lt start stop of
                Inl e \<Rightarrow> Inl e
              | Inr lt \<Rightarrow>
                  (let (min_val, max_val) = (if lt then (start, stop) else (stop, start))
                   in case comprehension_if (unordered_filter min_val max_val)
                             (zip (iv_index_labels v) (iv_data v)) of
                        Inl e \<Rightarrow> Inl e
                      | Inr pairs \<Rightarrow> Inr (Mapping (OrderedDict pairs))))))"

text \<open>
  \<^verbatim>\<open>sample\<close>: \<^verbatim>\<open>[data[self._coords2matrixidx(coords, data)] for data in self._data]\<close>.
  The hook \<^verbatim>\<open>_coords2matrixidx\<close> is what the class of the object binds; it is the parameter
  \<open>c2m\<close>, which gets the object's bounds, the coordinates and the snapshot. For one
  snapshot: the hook is called, then the snapshot is subscripted with its result. Every
  element of \<^verbatim>\<open>_data\<close> is the result of a \<^verbatim>\<open>copy()\<close>, an array; for a value that is none
  the outcome is the \<^verbatim>\<open>TypeError\<close> of subscripting \<^verbatim>\<open>None\<close>.
\<close>

definition sample_one ::
  "('b \<Rightarrow> 'c \<Rightarrow> 'a ndarray \<Rightarrow> error + int \<times> int) \<Rightarrow> 'a heap \<Rightarrow> 'b \<Rightarrow> 'c \<Rightarrow> pyval \<Rightarrow> error + 'a" where
  "sample_one c2m h bnds coords d =
     (case deref h d of
        None \<Rightarrow> Inl TypeError
      | Some arr \<Rightarrow>
          (case c2m bnds coords arr of
             Inl e \<Rightarrow> Inl e
           | Inr idx \<Rightarrow> nd_getitem arr idx))"

fun comprehension :: "('a \<Rightarrow> error + 'x) \<Rightarrow> 'a list \<Rightarrow> error + 'x list" where
  "comprehension f [] = Inr []"
| "comprehension f (x # xs) =
     (case f x of
        Inl e \<Rightarrow> Inl e
      | Inr y \<Rightarrow> (case comprehension f xs of Inl e \<Rightarrow> Inl e | Inr ys \<Rightarrow> Inr (y # ys)))"

definition IndexedView_sample ::
  "('b \<Rightarrow> 'c \<Rightarrow> 'a ndarray \<Rightarrow> error + int \<times> int) \<Rightarrow> 'a heap \<Rightarrow> ('b, 'k) IndexedView \<Rightarrow> 'c \<Rightarrow>
     error + 'a list" where
  "IndexedView_sample c2m h v coords =
     comprehension (sample_one c2m h (iv_bounds v) coords) (iv_data v)"

text \<open>\<^verbatim>\<open>view\<close>: \<^verbatim>\<open>return (self._data[-1], self.bounds)\<close>.\<close>

definition IndexedView_view :: "('b, 'k) IndexedView \<Rightarrow> error + pyval \<times> 'b" where
  "IndexedView_view v =
     (case list_last (iv_data v) of
        Inl e \<Rightarrow> Inl e
      | Inr d \<Rightarrow> Inr (d, iv_bounds v))"

text \<open>\<^verbatim>\<open>__len__\<close>: the attribute \<^verbatim>\<open>_index_labels\<close> exists from \<^verbatim>\<open>__init__\<close> on.\<close>

definition IndexedView_len :: "('b, 'k) IndexedView \<Rightarrow> nat" where
  "IndexedView_len v = length (iv_index_labels v)"

text \<open>
  The hooks of the classes. \<^verbatim>\<open>IndexedView._coords2matrixidx(self, coords)\<close> takes one
  argument and is called with two: \<^verbatim>\<open>TypeError\<close>, before its body
  (\<^verbatim>\<open>raise NotImplementedError\<close>) runs.
\<close>

definition IndexedView_coords2matrixidx :: "'b \<Rightarrow> 'c \<Rightarrow> 'a ndarray \<Rightarrow> error + int \<times> int" where
  "IndexedView_coords2matrixidx bnds coords arr = Inl TypeError"

text \<open>
  \<^verbatim>\<open>Cartesian2D._coords2matrixidx\<close>, which \<^verbatim>\<open>Cartesian2Dx\<close> takes over, divides the snapshot's
  shape by the extent of the bounds in floating point and hands the densities to
  \<^verbatim>\<open>SheetCoordinateSystem\<close> of another module. It is not embedded: the methods above take the
  hook as the parameter \<open>c2m\<close>.
\<close>

subsection \<open>Notions used in the statements\<close>

text \<open>
  The state of a container that was constructed with the given bounds and flag and has
  then received the given \<^verbatim>\<open>record\<close> calls; \<open>h0\<close> is the store at its construction.
\<close>

definition recorded ::
  "'a heap \<Rightarrow> 'b \<Rightarrow> bool \<Rightarrow> (pyval \<times> 'k::linorder) list \<Rightarrow> ('a, 'b, 'k) state" where
  "recorded h0 bnds asc calls = record_calls (h0, IndexedView_init bnds asc) calls"

text \<open>The value denotes an array of the store, so that \<^verbatim>\<open>copy()\<close> applies to it.\<close>

definition copyable :: "'a heap \<Rightarrow> pyval \<Rightarrow> bool" where
  "copyable h d = (case d of PNone \<Rightarrow> False | PArr a \<Rightarrow> a < length h)"

text \<open>The invariant of the data model: parallel sequences, sorted labels in ascending mode.\<close>

definition iv_invariant :: "('b, 'k::linorder) IndexedView \<Rightarrow> bool" where
  "iv_invariant v \<longleftrightarrow>
     length (iv_data v) = length (iv_index_labels v) \<and>
     (indexed_ascending v \<longrightarrow> sorted (iv_index_labels v))"

text \<open>
  The keys a slice \<^verbatim>\<open>[start:stop]\<close> is meant to select: \<open>start \<le> k < stop\<close>, an endpoint
  \<^verbatim>\<open>None\<close> leaving its side open.
\<close>

definition in_slice :: "'k::linorder option \<Rightarrow> 'k option \<Rightarrow> 'k \<Rightarrow> bool" where
  "in_slice start stop k \<longleftrightarrow>
     (case start of None \<Rightarrow> True | Some a \<Rightarrow> a \<le> k) \<and>
     (case stop of None \<Rightarrow> True | Some b \<Rightarrow> k < b)"

section \<open>Properties\<close>

subsection \<open>Binary search on a sorted list\<close>

lemma bisect_loop_stop: "\<not> lo < hi \<Longrightarrow> bisect_loop a x lo hi = lo"
  by (subst bisect_loop.simps) simp

lemma bisect_loop_right:
  "lo < hi \<Longrightarrow> a ! ((lo + hi) div 2) < x \<Longrightarrow>
     bisect_loop a x lo hi = bisect_loop a x ((lo + hi) div 2 + 1) hi"
  by (subst bisect_loop.simps) (simp add: Let_def)

lemma bisect_loop_left:
  "lo < hi \<Longrightarrow> \<not> a ! ((lo + hi) div 2) < x \<Longrightarrow>
     bisect_loop a x lo hi = bisect_loop a x lo ((lo + hi) div 2)"
  by (subst bisect_loop.simps) (simp add: Let_def)

lemma bisect_loop_range:
  "lo \<le> hi \<Longrightarrow> lo \<le> bisect_loop a x lo hi \<and> bisect_loop a x lo hi \<le> hi"
proof (induction a x lo hi rule: bisect_loop.induct)
  case (1 a x lo hi)
  show ?case
  proof (cases "lo < hi")
    case False
    with "1.prems" show ?thesis by (simp add: bisect_loop_stop)
  next
    case True
    let ?mid = "(lo + hi) div 2"
    from True have m: "lo \<le> ?mid" "?mid < hi" by auto
    show ?thesis
    proof (cases "a ! ?mid < x")
      case lt: True
      from "1.IH"(1) [OF True refl lt] m
      have "?mid + 1 \<le> bisect_loop a x (?mid + 1) hi \<and> bisect_loop a x (?mid + 1) hi \<le> hi"
        by simp
      with m show ?thesis by (simp add: bisect_loop_right [OF True lt])
    next
      case ge: False
      from "1.IH"(2) [OF True refl ge] m
      have "lo \<le> bisect_loop a x lo ?mid \<and> bisect_loop a x lo ?mid \<le> ?mid"
        by simp
      with m show ?thesis by (simp add: bisect_loop_left [OF True ge])
    qed
  qed
qed

lemma bisect_loop_partition:
  assumes "sorted a" "lo \<le> hi" "hi \<le> length a"
    and "\<forall>i<lo. a ! i < x"
    and "\<forall>i. hi \<le> i \<and> i < length a \<longrightarrow> x \<le> a ! i"
  shows "(\<forall>i<bisect_loop a x lo hi. a ! i < x) \<and>
         (\<forall>i. bisect_loop a x lo hi \<le> i \<and> i < length a \<longrightarrow> x \<le> a ! i)"
  using assms
proof (induction a x lo hi rule: bisect_loop.induct)
  case (1 a x lo hi)
  show ?case
  proof (cases "lo < hi")
    case False
    with "1.prems" have "lo = hi" by simp
    with "1.prems" show ?thesis by (simp add: bisect_loop_stop)
  next
    case True
    let ?mid = "(lo + hi) div 2"
    from True have m: "lo \<le> ?mid" "?mid < hi" by auto
    show ?thesis
    proof (cases "a ! ?mid < x")
      case lt: True
      have below: "\<forall>i<?mid + 1. a ! i < x"
      proof (intro allI impI)
        fix i assume "i < ?mid + 1"
        then have "i \<le> ?mid" by simp
        with \<open>sorted a\<close> m "1.prems"(3) have "a ! i \<le> a ! ?mid"
          by (simp add: sorted_nth_mono)
        with lt show "a ! i < x" by simp
      qed
      from m have "?mid + 1 \<le> hi" by simp
      from "1.IH"(1) [OF True refl lt "1.prems"(1) this "1.prems"(3) below "1.prems"(5)]
      show ?thesis by (simp add: bisect_loop_right [OF True lt])
    next
      case ge: False
      have above: "\<forall>i. ?mid \<le> i \<and> i < length a \<longrightarrow> x \<le> a ! i"
      proof (intro allI impI)
        fix i assume "?mid \<le> i \<and> i < length a"
        with \<open>sorted a\<close> have "a ! ?mid \<le> a ! i"
          by (simp add: sorted_nth_mono)
        with ge show "x \<le> a ! i" by simp
      qed
      from m "1.prems"(3) have "?mid \<le> length a" by simp
      from "1.IH"(2) [OF True refl ge "1.prems"(1) m(1) this "1.prems"(4) above]
      show ?thesis by (simp add: bisect_loop_left [OF True ge])
    qed
  qed
qed

lemma bisect_left_le_length: "bisect_left a x \<le> length a"
  using bisect_loop_range [of 0 "length a" a x] by (simp add: bisect_left_def)

lemma bisect_left_partition:
  assumes "sorted a"
  shows "(\<forall>i<bisect_left a x. a ! i < x) \<and>
         (\<forall>i. bisect_left a x \<le> i \<and> i < length a \<longrightarrow> x \<le> a ! i)"
  unfolding bisect_left_def
  by (rule bisect_loop_partition) (use assms in auto)

lemma bisect_left_take:
  assumes "sorted a"
  shows "\<forall>y \<in> set (take (bisect_left a x) a). y < x"
proof
  fix y assume "y \<in> set (take (bisect_left a x) a)"
  then obtain i where "i < length (take (bisect_left a x) a)" "take (bisect_left a x) a ! i = y"
    by (auto simp: in_set_conv_nth)
  with bisect_left_partition [OF assms, of x] show "y < x" by auto
qed

lemma bisect_left_drop:
  assumes "sorted a"
  shows "\<forall>y \<in> set (drop (bisect_left a x) a). x \<le> y"
proof
  fix y assume "y \<in> set (drop (bisect_left a x) a)"
  then obtain i where i: "i < length (drop (bisect_left a x) a)" "drop (bisect_left a x) a ! i = y"
    by (auto simp: in_set_conv_nth)
  then have "bisect_left a x + i < length a" by simp
  with bisect_left_partition [OF assms, of x] i bisect_left_le_length [of a x]
  show "x \<le> y" by auto
qed

lemma sorted_list_insert:
  assumes "sorted a"
  shows "sorted (list_insert a (bisect_left a x) x)"
proof -
  have "sorted (take (bisect_left a x) a)" "sorted (drop (bisect_left a x) a)"
    using assms by (simp_all add: sorted_wrt_take sorted_wrt_drop)
  moreover have "\<forall>y\<in>set (take (bisect_left a x) a). \<forall>z\<in>set (drop (bisect_left a x) a). y \<le> z"
    using bisect_left_take [OF assms, of x] bisect_left_drop [OF assms, of x] by fastforce
  ultimately show ?thesis
    using bisect_left_take [OF assms, of x] bisect_left_drop [OF assms, of x]
    by (auto simp: list_insert_def sorted_append)
qed

lemma bisect_left_filter:
  assumes "sorted a"
  shows "take (bisect_left a x) a = filter (\<lambda>y. y < x) a"
    and "drop (bisect_left a x) a = filter (\<lambda>y. x \<le> y) a"
proof -
  let ?i = "bisect_left a x"
  have a: "a = take ?i a @ drop ?i a" by simp
  have t: "filter (\<lambda>y. y < x) (take ?i a) = take ?i a"
    using bisect_left_take [OF assms, of x] by (simp add: filter_id_conv)
  have d: "filter (\<lambda>y. y < x) (drop ?i a) = []"
    using bisect_left_drop [OF assms, of x] by (auto simp: filter_empty_conv)
  have "filter (\<lambda>y. y < x) a = filter (\<lambda>y. y < x) (take ?i a) @ filter (\<lambda>y. y < x) (drop ?i a)"
    by (subst a) (simp only: filter_append)
  with t d show "take ?i a = filter (\<lambda>y. y < x) a" by simp
  have t': "filter (\<lambda>y. x \<le> y) (take ?i a) = []"
    using bisect_left_take [OF assms, of x] by (auto simp: filter_empty_conv)
  have d': "filter (\<lambda>y. x \<le> y) (drop ?i a) = drop ?i a"
    using bisect_left_drop [OF assms, of x] by (simp add: filter_id_conv)
  have "filter (\<lambda>y. x \<le> y) a = filter (\<lambda>y. x \<le> y) (take ?i a) @ filter (\<lambda>y. x \<le> y) (drop ?i a)"
    by (subst a) (simp only: filter_append)
  with t' d' show "drop ?i a = filter (\<lambda>y. x \<le> y) a" by simp
qed

subsection \<open>The \<^verbatim>\<open>record\<close> method\<close>

lemma py_copy_cases:
  "py_copy h d = (case d of PNone \<Rightarrow> Inl AttributeError
      | PArr a \<Rightarrow> if a < length h then Inr (h @ [h ! a], PArr (length h)) else Inl AttributeError)"
  by (simp add: py_copy_def deref_def heap_get_def split: pyval.splits)

lemma record_fail:
  "\<not> copyable h d \<Longrightarrow> IndexedView_record (h, v) d k = (Inl AttributeError, (h, v))"
  by (auto simp: IndexedView_record_def bisect_insert_def py_copy_cases copyable_def Let_def
      split: pyval.splits)

lemma record_ascending:
  "copyable h d \<Longrightarrow> indexed_ascending v \<Longrightarrow>
   IndexedView_record (h, v) d k =
     (Inr (), (h @ [the (deref h d)],
       v\<lparr>iv_data := list_insert (iv_data v) (bisect_left (iv_index_labels v) k) (PArr (length h)),
         iv_index_labels := list_insert (iv_index_labels v) (bisect_left (iv_index_labels v) k) k\<rparr>))"
  by (auto simp: IndexedView_record_def bisect_insert_def py_copy_cases copyable_def Let_def
      deref_def heap_get_def split: pyval.splits)

lemma record_unordered:
  "copyable h d \<Longrightarrow> \<not> indexed_ascending v \<Longrightarrow>
   IndexedView_record (h, v) d k =
     (Inr (), (h @ [the (deref h d)],
       v\<lparr>iv_data := iv_data v @ [PArr (length h)],
         iv_index_labels := iv_index_labels v @ [k]\<rparr>))"
  by (auto simp: IndexedView_record_def bisect_insert_def py_copy_cases copyable_def Let_def
      deref_def heap_get_def split: pyval.splits)

lemma record_ascending_flag:
  "indexed_ascending (snd (snd (IndexedView_record (h, v) d k))) = indexed_ascending v"
  by (cases "copyable h d"; cases "indexed_ascending v")
     (simp_all add: record_fail record_ascending record_unordered)

lemma record_invariant:
  assumes "iv_invariant v"
  shows "iv_invariant (snd (snd (IndexedView_record (h, v) d k)))"
proof (cases "copyable h d")
  case False
  with assms show ?thesis by (simp add: record_fail)
next
  case True
  show ?thesis
  proof (cases "indexed_ascending v")
    case asc: True
    with assms have "sorted (iv_index_labels v)" by (simp add: iv_invariant_def)
    then have "sorted (list_insert (iv_index_labels v) (bisect_left (iv_index_labels v) k) k)"
      by (rule sorted_list_insert)
    with assms True asc show ?thesis
      by (simp add: record_ascending iv_invariant_def list_insert_def)
  next
    case False
    with assms True show ?thesis
      by (simp add: record_unordered iv_invariant_def)
  qed
qed

lemma record_calls_invariant:
  "iv_invariant (snd s) \<Longrightarrow> iv_invariant (snd (record_calls s calls))"
proof (induction calls arbitrary: s)
  case Nil
  then show ?case by simp
next
  case (Cons c calls)
  obtain d k where c: "c = (d, k)" by (cases c)
  obtain h v where s: "s = (h, v)" by (cases s)
  from Cons.prems s have "iv_invariant (snd (snd (IndexedView_record s d k)))"
    by (simp add: record_invariant)
  from Cons.IH [OF this] c show ?case by simp
qed

lemma record_calls_flag:
  "indexed_ascending (snd (record_calls s calls)) = indexed_ascending (snd s)"
proof (induction calls arbitrary: s)
  case Nil
  then show ?case by simp
next
  case (Cons c calls)
  obtain d k where c: "c = (d, k)" by (cases c)
  obtain h v where s: "s = (h, v)" by (cases s)
  from Cons.IH [of "snd (IndexedView_record s d k)"] c s show ?case
    by (simp add: record_ascending_flag)
qed

lemma init_invariant: "iv_invariant (IndexedView_init bnds asc)"
  by (simp add: iv_invariant_def IndexedView_init_def)

lemma recorded_invariant: "iv_invariant (snd (recorded h0 bnds asc calls))"
  unfolding recorded_def by (rule record_calls_invariant) (simp add: init_invariant)

lemma recorded_flag: "indexed_ascending (snd (recorded h0 bnds asc calls)) = asc"
  by (simp add: recorded_def record_calls_flag IndexedView_init_def)

lemma record_atomic:
  assumes len: "length (iv_data v) = length (iv_index_labels v)"
  shows "(fst (IndexedView_record (h, v) d k) = Inr () \<and>
      (\<exists>i c. i \<le> length (iv_data v) \<and>
         snd (snd (IndexedView_record (h, v) d k)) =
           v\<lparr>iv_data := take i (iv_data v) @ c # drop i (iv_data v),
             iv_index_labels := take i (iv_index_labels v) @ k # drop i (iv_index_labels v)\<rparr>)) \<or>
    (\<exists>e. fst (IndexedView_record (h, v) d k) = Inl e \<and> snd (IndexedView_record (h, v) d k) = (h, v))"
proof (cases "copyable h d")
  case False
  then show ?thesis by (simp add: record_fail)
next
  case True
  show ?thesis
  proof (cases "indexed_ascending v")
    case asc: True
    let ?i = "bisect_left (iv_index_labels v) k"
    have "?i \<le> length (iv_data v)"
      using bisect_left_le_length [of "iv_index_labels v" k] len by simp
    then have "\<exists>i c. i \<le> length (iv_data v) \<and>
         v\<lparr>iv_data := list_insert (iv_data v) ?i (PArr (length h)),
           iv_index_labels := list_insert (iv_index_labels v) ?i k\<rparr> =
         v\<lparr>iv_data := take i (iv_data v) @ c # drop i (iv_data v),
            iv_index_labels := take i (iv_index_labels v) @ k # drop i (iv_index_labels v)\<rparr>"
      unfolding list_insert_def by blast
    then show ?thesis
      by (simp add: record_ascending [OF True asc])
  next
    case False
    have "v\<lparr>iv_data := iv_data v @ [PArr (length h)],
           iv_index_labels := iv_index_labels v @ [k]\<rparr> =
         v\<lparr>iv_data := take (length (iv_data v)) (iv_data v) @ PArr (length h) #
               drop (length (iv_data v)) (iv_data v),
            iv_index_labels := take (length (iv_data v)) (iv_index_labels v) @ k #
               drop (length (iv_data v)) (iv_index_labels v)\<rparr>"
      using len by simp
    then have "\<exists>i c. i \<le> length (iv_data v) \<and>
         v\<lparr>iv_data := iv_data v @ [PArr (length h)],
           iv_index_labels := iv_index_labels v @ [k]\<rparr> =
         v\<lparr>iv_data := take i (iv_data v) @ c # drop i (iv_data v),
            iv_index_labels := take i (iv_index_labels v) @ k # drop i (iv_index_labels v)\<rparr>"
      by (intro exI [of _ "length (iv_data v)"] exI [of _ "PArr (length h)"] conjI le_refl)
    then show ?thesis
      by (simp add: record_unordered [OF True False])
  qed
qed

subsection \<open>Point lookup in ascending mode\<close>

lemma bisect_left_member:
  assumes srt: "sorted a" and mem: "k \<in> set a"
  shows "bisect_left a k < length a \<and> a ! bisect_left a k = k \<and> (\<forall>j<bisect_left a k. a ! j < k)"
proof -
  let ?i = "bisect_left a k"
  from bisect_left_partition [OF srt, of k]
  have below: "\<forall>j<?i. a ! j < k" and above: "\<forall>j. ?i \<le> j \<and> j < length a \<longrightarrow> k \<le> a ! j"
    by simp_all
  from mem obtain m where m: "m < length a" "a ! m = k" by (auto simp: in_set_conv_nth)
  have "?i \<le> m"
  proof (rule ccontr)
    assume "\<not> ?i \<le> m"
    then have "m < ?i" by simp
    with below have "a ! m < k" by simp
    with m show False by simp
  qed
  with m have lt: "?i < length a" by simp
  with above have "k \<le> a ! ?i" by simp
  moreover from srt \<open>?i \<le> m\<close> m have "a ! ?i \<le> k" by (auto simp: sorted_nth_mono)
  ultimately have "a ! ?i = k" by simp
  with lt below show ?thesis by simp
qed

lemma bisect_index_found:
  assumes "sorted (iv_index_labels v)" "k \<in> set (iv_index_labels v)"
  shows "bisect_index v k = Inr (bisect_left (iv_index_labels v) k)"
  using bisect_left_member [OF assms] by (simp add: bisect_index_def Let_def)

lemma bisect_index_missing:
  assumes "k \<notin> set (iv_index_labels v)"
  shows "bisect_index v k = Inl ValueError"
proof -
  have "bisect_left (iv_index_labels v) k < length (iv_index_labels v) \<Longrightarrow>
      iv_index_labels v ! bisect_left (iv_index_labels v) k \<noteq> k"
    using assms nth_mem by metis
  moreover have "bisect_left (iv_index_labels v) k \<le> length (iv_index_labels v)"
    by (rule bisect_left_le_length)
  ultimately show ?thesis
    by (auto simp: bisect_index_def Let_def)
qed

lemma getitem_key_ascending:
  assumes "indexed_ascending v"
  shows "IndexedView_getitem v (Key k) =
     (case bisect_index v k of Inl e \<Rightarrow> Inl e
      | Inr i \<Rightarrow> (case list_getitem (iv_data v) i of Inl e \<Rightarrow> Inl e | Inr d \<Rightarrow> Inr (Snapshot d)))"
  using assms by (simp add: IndexedView_getitem_def)

lemma lookup_found:
  assumes inv: "iv_invariant v" and asc: "indexed_ascending v" and mem: "k \<in> set (iv_index_labels v)"
  shows "IndexedView_getitem v (Key k) = Inr (Snapshot (iv_data v ! bisect_left (iv_index_labels v) k))"
proof -
  from inv asc have srt: "sorted (iv_index_labels v)"
    and len: "length (iv_data v) = length (iv_index_labels v)"
    by (simp_all add: iv_invariant_def)
  from bisect_left_member [OF srt mem] len
  have "bisect_left (iv_index_labels v) k < length (iv_data v)" by simp
  then show ?thesis
    by (simp add: getitem_key_ascending [OF asc] bisect_index_found [OF srt mem] list_getitem_def)
qed

lemma lookup_missing:
  assumes "indexed_ascending v" "k \<notin> set (iv_index_labels v)"
  shows "IndexedView_getitem v (Key k) = Inl ValueError"
  using assms by (simp add: getitem_key_ascending bisect_index_missing)

lemma bisect_left_after_insert:
  assumes srt: "sorted a"
  shows "bisect_left (list_insert a (bisect_left a k) k) k = bisect_left a k"
proof -
  let ?i = "bisect_left a k"
  let ?b = "list_insert a ?i k"
  have le: "?i \<le> length a" by (rule bisect_left_le_length)
  have srt': "sorted ?b" by (rule sorted_list_insert [OF srt])
  have at: "?b ! ?i = k" using le by (simp add: list_insert_def nth_append)
  have mem: "k \<in> set ?b" by (simp add: list_insert_def)
  have before: "?b ! j < k" if "j < ?i" for j
  proof -
    from that le have "?b ! j = a ! j" by (simp add: list_insert_def nth_append)
    with bisect_left_partition [OF srt, of k] that show ?thesis by simp
  qed
  from bisect_left_member [OF srt' mem]
  have eq: "?b ! bisect_left ?b k = k" and less: "\<forall>j<bisect_left ?b k. ?b ! j < k" by simp_all
  have "\<not> bisect_left ?b k < ?i"
  proof
    assume "bisect_left ?b k < ?i"
    from before [OF this] eq show False by simp
  qed
  moreover have "\<not> ?i < bisect_left ?b k"
  proof
    assume "?i < bisect_left ?b k"
    with less have "?b ! ?i < k" by simp
    with at show False by simp
  qed
  ultimately show ?thesis by simp
qed

lemma lookup_after_record:
  assumes inv: "iv_invariant v" and asc: "indexed_ascending v" and a: "a < length h"
  shows "IndexedView_getitem (snd (snd (IndexedView_record (h, v) (PArr a) k))) (Key k) =
     Inr (Snapshot (PArr (length h)))"
proof -
  let ?i = "bisect_left (iv_index_labels v) k"
  let ?v' = "v\<lparr>iv_data := list_insert (iv_data v) ?i (PArr (length h)),
         iv_index_labels := list_insert (iv_index_labels v) ?i k\<rparr>"
  from inv asc have srt: "sorted (iv_index_labels v)"
    and len: "length (iv_data v) = length (iv_index_labels v)"
    by (simp_all add: iv_invariant_def)
  have c: "copyable h (PArr a)" using a by (simp add: copyable_def)
  have v': "snd (snd (IndexedView_record (h, v) (PArr a) k)) = ?v'"
    by (simp add: record_ascending [OF c asc])
  have inv': "iv_invariant ?v'"
    using record_invariant [OF inv, of h "PArr a" k] v' by simp
  have asc': "indexed_ascending ?v'" using asc by simp
  have mem: "k \<in> set (iv_index_labels ?v')" by (simp add: list_insert_def)
  have pos: "bisect_left (iv_index_labels ?v') k = ?i"
    using bisect_left_after_insert [OF srt, of k] by simp
  have "?i \<le> length (iv_data v)"
    using bisect_left_le_length [of "iv_index_labels v" k] len by simp
  then have "iv_data ?v' ! ?i = PArr (length h)"
    by (simp add: list_insert_def nth_append)
  with lookup_found [OF inv' asc' mem] pos show ?thesis
    unfolding v' by simp
qed

subsection \<open>Sampling\<close>

lemma comprehension_Inr_iff:
  "comprehension f xs = Inr ys \<longleftrightarrow>
     length ys = length xs \<and> (\<forall>i<length xs. f (xs ! i) = Inr (ys ! i))"
proof (induction xs arbitrary: ys)
  case Nil
  then show ?case by auto
next
  case (Cons x xs)
  show ?case
  proof (cases "f x")
    case (Inl e)
    then have "\<not> (\<forall>i<length (x # xs). f ((x # xs) ! i) = Inr (ys ! i))"
      by (auto intro: exI [of _ 0])
    with Inl show ?thesis by simp
  next
    case (Inr y)
    show ?thesis
    proof (cases ys)
      case Nil
      with Inr show ?thesis by (simp split: sum.splits)
    next
      case (Cons y' ys')
      have "(\<forall>i<length (x # xs). f ((x # xs) ! i) = Inr ((y' # ys') ! i)) \<longleftrightarrow>
          f x = Inr y' \<and> (\<forall>i<length xs. f (xs ! i) = Inr (ys' ! i))"
        by (auto simp: nth_Cons split: nat.splits)
      with Inr Cons Cons.IH [of ys'] show ?thesis
        by (auto split: sum.splits)
    qed
  qed
qed

lemma sample_one_Inr_iff:
  "sample_one c2m h bnds coords d = Inr y \<longleftrightarrow>
     (\<exists>arr idx. deref h d = Some arr \<and> c2m bnds coords arr = Inr idx \<and> nd_getitem arr idx = Inr y)"
  by (auto simp: sample_one_def split: option.splits sum.splits)

subsection \<open>Slices and ordered mappings\<close>

lemma map_nth_window:
  assumes "hi \<le> length xs"
  shows "map (\<lambda>i. xs ! nat (int lo + int i * 1)) [0..<hi - lo] = drop lo (take hi xs)"
proof (rule nth_equalityI)
  show "length (map (\<lambda>i. xs ! nat (int lo + int i * 1)) [0..<hi - lo]) = length (drop lo (take hi xs))"
    using assms by simp
next
  fix i assume "i < length (map (\<lambda>i. xs ! nat (int lo + int i * 1)) [0..<hi - lo])"
  then have i: "i < hi - lo" by simp
  have "nat (int lo + int i * 1) = lo + i" by simp
  with i assms show "map (\<lambda>i. xs ! nat (int lo + int i * 1)) [0..<hi - lo] ! i = drop lo (take hi xs) ! i"
    by simp
qed

lemma list_slice_step_None:
  "list_slice xs start stop None =
     Inr (drop (case start of None \<Rightarrow> 0 | Some s \<Rightarrow> s)
            (take (case stop of None \<Rightarrow> length xs | Some e \<Rightarrow> e) xs))"
proof -
  define lo where "lo = (case start of None \<Rightarrow> 0 | Some s \<Rightarrow> min s (length xs))"
  define hi where "hi = (case stop of None \<Rightarrow> length xs | Some e \<Rightarrow> min e (length xs))"
  have lo: "slice_start (int (length xs)) 1 start = int lo"
    by (simp add: slice_start_def lo_def split: option.splits)
  have hi: "slice_stop (int (length xs)) 1 stop = int hi"
    by (simp add: slice_stop_def hi_def split: option.splits)
  have len: "slice_length (int lo) (int hi) 1 = hi - lo"
    by (simp add: slice_length_def) arith
  have hile: "hi \<le> length xs" by (simp add: hi_def split: option.splits)
  have "list_slice xs start stop None =
      Inr (map (\<lambda>i. xs ! nat (int lo + int i * 1)) [0..<hi - lo])"
    by (simp add: list_slice_def Let_def lo hi len)
  also have "\<dots> = Inr (drop lo (take hi xs))"
    by (simp only: map_nth_window [OF hile])
  also have "drop lo (take hi xs) =
     drop (case start of None \<Rightarrow> 0 | Some s \<Rightarrow> s)
            (take (case stop of None \<Rightarrow> length xs | Some e \<Rightarrow> e) xs)"
    by (auto simp: lo_def hi_def min_def split: option.splits)
  finally show ?thesis .
qed

lemma partition_point:
  assumes low: "\<forall>m<j. m < length ps \<longrightarrow> P (ps ! m)"
    and high: "\<forall>m. j \<le> m \<and> m < length ps \<longrightarrow> \<not> P (ps ! m)"
  shows "take j ps = filter P ps" and "drop j ps = filter (\<lambda>p. \<not> P p) ps"
proof -
  have t: "\<forall>p \<in> set (take j ps). P p"
  proof
    fix p assume "p \<in> set (take j ps)"
    then obtain m where "m < length (take j ps)" "take j ps ! m = p"
      by (auto simp: in_set_conv_nth)
    with low show "P p" by auto
  qed
  have d: "\<forall>p \<in> set (drop j ps). \<not> P p"
  proof
    fix p assume "p \<in> set (drop j ps)"
    then obtain m where m: "m < length (drop j ps)" "drop j ps ! m = p"
      by (auto simp: in_set_conv_nth)
    show "\<not> P p"
    proof (cases "j \<le> length ps")
      case True
      with m have "j + m < length ps" "ps ! (j + m) = p" by simp_all
      with high show ?thesis by auto
    next
      case False
      with m show ?thesis by simp
    qed
  qed
  have "filter P ps = filter P (take j ps) @ filter P (drop j ps)"
    by (simp only: filter_append [symmetric] append_take_drop_id)
  also have "filter P (take j ps) = take j ps" using t by (simp add: filter_id_conv)
  also have "filter P (drop j ps) = []" using d by (simp add: filter_empty_conv)
  finally show "take j ps = filter P ps" by simp
  have "filter (\<lambda>p. \<not> P p) ps =
      filter (\<lambda>p. \<not> P p) (take j ps) @ filter (\<lambda>p. \<not> P p) (drop j ps)"
    by (simp only: filter_append [symmetric] append_take_drop_id)
  also have "filter (\<lambda>p. \<not> P p) (take j ps) = []" using t by (simp add: filter_empty_conv)
  also have "filter (\<lambda>p. \<not> P p) (drop j ps) = drop j ps" using d by (simp add: filter_id_conv)
  finally show "drop j ps = filter (\<lambda>p. \<not> P p) ps" by simp
qed

text \<open>Cutting the paired lists at the positions that bisection finds selects by key.\<close>

lemma take_bisect_zip:
  assumes srt: "sorted ls" and len: "length ds = length ls"
  shows "take (bisect_left ls b) (zip ls ds) = filter (\<lambda>p. fst p < b) (zip ls ds)"
proof (rule partition_point(1))
  show "\<forall>m<bisect_left ls b. m < length (zip ls ds) \<longrightarrow> fst (zip ls ds ! m) < b"
    using bisect_left_partition [OF srt, of b] by simp
  show "\<forall>m. bisect_left ls b \<le> m \<and> m < length (zip ls ds) \<longrightarrow> \<not> fst (zip ls ds ! m) < b"
    using bisect_left_partition [OF srt, of b] len by (simp add: not_less)
qed

lemma drop_bisect_zip:
  assumes srt: "sorted ls" and len: "length ds = length ls"
  shows "drop (bisect_left ls a) (take j (zip ls ds)) =
     filter (\<lambda>p. a \<le> fst p) (take j (zip ls ds))"
proof -
  have "drop (bisect_left ls a) (take j (zip ls ds)) =
      filter (\<lambda>p. \<not> fst p < a) (take j (zip ls ds))"
  proof (rule partition_point(2))
    show "\<forall>m<bisect_left ls a. m < length (take j (zip ls ds)) \<longrightarrow>
        fst (take j (zip ls ds) ! m) < a"
      using bisect_left_partition [OF srt, of a] by simp
    show "\<forall>m. bisect_left ls a \<le> m \<and> m < length (take j (zip ls ds)) \<longrightarrow>
        \<not> fst (take j (zip ls ds) ! m) < a"
      using bisect_left_partition [OF srt, of a] len by (simp add: not_less)
  qed
  then show ?thesis by (simp add: not_less)
qed

lemma slice_zip_select:
  assumes srt: "sorted ls" and len: "length ds = length ls"
  shows "drop (case start of None \<Rightarrow> 0 | Some a \<Rightarrow> bisect_left ls a)
           (take (case stop of None \<Rightarrow> length ls | Some b \<Rightarrow> bisect_left ls b) (zip ls ds)) =
         filter (\<lambda>p. in_slice start stop (fst p)) (zip ls ds)"
proof -
  have t: "take (case stop of None \<Rightarrow> length ls | Some b \<Rightarrow> bisect_left ls b) (zip ls ds) =
      filter (\<lambda>p. case stop of None \<Rightarrow> True | Some b \<Rightarrow> fst p < b) (zip ls ds)"
    using take_bisect_zip [OF srt len] len by (cases stop) simp_all
  have d: "drop (case start of None \<Rightarrow> 0 | Some a \<Rightarrow> bisect_left ls a) (take j (zip ls ds)) =
      filter (\<lambda>p. case start of None \<Rightarrow> True | Some a \<Rightarrow> a \<le> fst p) (take j (zip ls ds))" for j
    using drop_bisect_zip [OF srt len] by (cases start) simp_all
  have "filter (\<lambda>p. case start of None \<Rightarrow> True | Some a \<Rightarrow> a \<le> fst p)
      (filter (\<lambda>p. case stop of None \<Rightarrow> True | Some b \<Rightarrow> fst p < b) (zip ls ds)) =
      filter (\<lambda>p. in_slice start stop (fst p)) (zip ls ds)"
    unfolding filter_filter by (rule filter_cong) (auto simp: in_slice_def)
  then show ?thesis
    unfolding d unfolding t .
qed

lemma bisect_slice_step_None:
  assumes inv: "iv_invariant v" and asc: "indexed_ascending v"
  shows "bisect_slice v start stop None =
     Inr (OrderedDict (filter (\<lambda>p. in_slice start stop (fst p))
            (zip (iv_index_labels v) (iv_data v))))"
proof -
  let ?ls = "iv_index_labels v" and ?ds = "iv_data v"
  from inv asc have srt: "sorted ?ls" and len: "length ?ds = length ?ls"
    by (simp_all add: iv_invariant_def)
  let ?i = "case start of None \<Rightarrow> 0 | Some a \<Rightarrow> bisect_left ?ls a"
  let ?j = "case stop of None \<Rightarrow> length ?ls | Some b \<Rightarrow> bisect_left ?ls b"
  have si: "(case (case start of None \<Rightarrow> None | Some a \<Rightarrow> Some (bisect_left ?ls a)) of
       None \<Rightarrow> 0 | Some s \<Rightarrow> s) = ?i"
    by (cases start) simp_all
  have sj: "(case (case stop of None \<Rightarrow> None | Some b \<Rightarrow> Some (bisect_left ?ls b)) of
       None \<Rightarrow> n | Some e \<Rightarrow> e) = (case stop of None \<Rightarrow> n | Some b \<Rightarrow> bisect_left ?ls b)" for n
    by (cases stop) simp_all
  have "bisect_slice v start stop None =
      Inr (OrderedDict (zip (drop ?i (take ?j ?ls)) (drop ?i (take ?j ?ds))))"
    by (simp add: bisect_slice_def Let_def list_slice_step_None si sj len cong: option.case_cong)
  also have "zip (drop ?i (take ?j ?ls)) (drop ?i (take ?j ?ds)) = drop ?i (take ?j (zip ?ls ?ds))"
    by (simp add: drop_zip take_zip)
  also have "\<dots> = filter (\<lambda>p. in_slice start stop (fst p)) (zip ?ls ?ds)"
    by (rule slice_zip_select [OF srt len])
  finally show ?thesis .
qed

lemma od_setitem_new: "k \<notin> fst ` set od \<Longrightarrow> od_setitem od k v = od @ [(k, v)]"
  by (induction od) auto

lemma od_setitem_keys_old: "k \<in> fst ` set od \<Longrightarrow> map fst (od_setitem od k v) = map fst od"
  by (induction od) auto

lemma od_setitem_map_of: "map_of (od_setitem od k v) = (map_of od)(k \<mapsto> v)"
  by (induction od) auto

lemma od_fold_distinct_id:
  "distinct (map fst (acc @ ps)) \<Longrightarrow>
   foldl (\<lambda>od (k, v). od_setitem od k v) acc ps = acc @ ps"
proof (induction ps arbitrary: acc)
  case Nil
  then show ?case by simp
next
  case (Cons p ps)
  obtain k v where p: "p = (k, v)" by (cases p)
  from Cons.prems p have new: "k \<notin> fst ` set acc" by auto
  from Cons.prems p have "distinct (map fst ((acc @ [(k, v)]) @ ps))" by simp
  from Cons.IH [OF this] new p show ?case by (simp add: od_setitem_new)
qed

lemma od_fold_map_of:
  "map_of (foldl (\<lambda>od (k, v). od_setitem od k v) acc ps) = map_of acc ++ map_of (rev ps)"
proof (induction ps arbitrary: acc)
  case Nil
  then show ?case by simp
next
  case (Cons p ps)
  obtain k v where p: "p = (k, v)" by (cases p)
  have "map_of (foldl (\<lambda>od (k, v). od_setitem od k v) acc (p # ps)) =
      map_of (od_setitem acc k v) ++ map_of (rev ps)"
    using Cons.IH [of "od_setitem acc k v"] p by simp
  also have "\<dots> = map_of acc ++ map_of (rev (p # ps))"
    by (rule ext) (simp add: p od_setitem_map_of map_add_def split: option.splits)
  finally show ?case .
qed

lemma od_fold_strictly_sorted:
  assumes "sorted_wrt (<) (map fst acc)" "sorted (map fst ps)"
    and "\<forall>x \<in> fst ` set acc. \<forall>y \<in> fst ` set ps. x \<le> y"
  shows "sorted_wrt (<) (map fst (foldl (\<lambda>od (k, v). od_setitem od k v) acc ps))"
  using assms
proof (induction ps arbitrary: acc)
  case Nil
  then show ?case by simp
next
  case (Cons p ps)
  obtain k v where p: "p = (k, v)" by (cases p)
  from Cons.prems(2) p have srt: "sorted (map fst ps)" and kle: "\<forall>y \<in> fst ` set ps. k \<le> y"
    by auto
  have "sorted_wrt (<) (map fst (foldl (\<lambda>od (k, v). od_setitem od k v) (od_setitem acc k v) ps))"
  proof (cases "k \<in> fst ` set acc")
    case True
    then have keys: "map fst (od_setitem acc k v) = map fst acc" by (rule od_setitem_keys_old)
    have s1: "sorted_wrt (<) (map fst (od_setitem acc k v))"
      using Cons.prems(1) keys by simp
    have "fst ` set (od_setitem acc k v) = fst ` set acc"
      using keys by (metis list.set_map)
    with Cons.prems(3) have s3: "\<forall>x \<in> fst ` set (od_setitem acc k v). \<forall>y \<in> fst ` set ps. x \<le> y"
      by simp
    from Cons.IH [OF s1 srt s3] show ?thesis .
  next
    case False
    then have eq: "od_setitem acc k v = acc @ [(k, v)]" by (rule od_setitem_new)
    have below: "\<forall>x \<in> fst ` set acc. x < k"
    proof
      fix x assume x: "x \<in> fst ` set acc"
      with Cons.prems(3) p have "x \<le> k" by auto
      moreover from x False have "x \<noteq> k" by auto
      ultimately show "x < k" by simp
    qed
    have s1: "sorted_wrt (<) (map fst (od_setitem acc k v))"
      using Cons.prems(1) below by (auto simp: eq sorted_wrt_append)
    have s3: "\<forall>x \<in> fst ` set (od_setitem acc k v). \<forall>y \<in> fst ` set ps. x \<le> y"
      using Cons.prems(3) kle by (auto simp: eq)
    from Cons.IH [OF s1 srt s3] show ?thesis .
  qed
  with p show ?case by simp
qed

lemma OrderedDict_distinct: "distinct (map fst ps) \<Longrightarrow> OrderedDict ps = ps"
  using od_fold_distinct_id [of "[]" ps] by (simp add: OrderedDict_def)

lemma OrderedDict_map_of: "map_of (OrderedDict ps) = map_of (rev ps)"
  by (simp add: OrderedDict_def od_fold_map_of)

lemma OrderedDict_strictly_sorted:
  "sorted (map fst ps) \<Longrightarrow> sorted_wrt (<) (map fst (OrderedDict ps))"
  unfolding OrderedDict_def by (rule od_fold_strictly_sorted) simp_all

lemma map_of_rev_last_occurrence:
  "map_of (rev ps) k = Some d \<longleftrightarrow> (\<exists>ys zs. ps = ys @ (k, d) # zs \<and> k \<notin> fst ` set zs)"
proof
  assume r: "\<exists>ys zs. ps = ys @ (k, d) # zs \<and> k \<notin> fst ` set zs"
  then obtain ys zs where ps: "ps = ys @ (k, d) # zs" and k: "k \<notin> fst ` set zs" by blast
  from k have "map_of (rev zs) k = None" by (simp add: map_of_eq_None_iff)
  then show "map_of (rev ps) k = Some d"
    by (simp add: ps map_add_def)
next
  assume l: "map_of (rev ps) k = Some d"
  then have "(k, d) \<in> set ps" using map_of_SomeD by fastforce
  then have "\<exists>p \<in> set ps. fst p = k" by force
  then obtain ys p zs where ps: "ps = ys @ p # zs" and pk: "fst p = k"
    and later: "\<forall>z \<in> set zs. fst z \<noteq> k"
    using split_list_last_prop [of ps "\<lambda>p. fst p = k"] by blast
  from later have "map_of (rev zs) k = None" by (auto simp: map_of_eq_None_iff)
  with pk have "map_of (rev ps) k = Some (snd p)"
    by (cases p) (simp add: ps map_add_def)
  with l pk have "p = (k, d)" by (cases p) simp
  with ps later show "\<exists>ys zs. ps = ys @ (k, d) # zs \<and> k \<notin> fst ` set zs" by auto
qed

lemma map_of_filter_key:
  "map_of (filter (\<lambda>p. Q (fst p)) xs) k = (if Q k then map_of xs k else None)"
  by (induction xs) auto

lemma OrderedDict_filter_member:
  assumes "sorted (map fst ps)"
  shows "(k, d) \<in> set (OrderedDict (filter (\<lambda>p. Q (fst p)) ps)) \<longleftrightarrow>
     Q k \<and> (\<exists>ys zs. ps = ys @ (k, d) # zs \<and> k \<notin> fst ` set zs)"
proof -
  let ?sel = "filter (\<lambda>p. Q (fst p)) ps"
  have "sorted (map fst ?sel)" using assms by (rule sorted_filter)
  then have "sorted_wrt (<) (map fst (OrderedDict ?sel))" by (rule OrderedDict_strictly_sorted)
  then have "distinct (map fst (OrderedDict ?sel))" by (simp add: strict_sorted_iff)
  then have "(k, d) \<in> set (OrderedDict ?sel) \<longleftrightarrow> map_of (OrderedDict ?sel) k = Some d"
    by simp
  also have "\<dots> \<longleftrightarrow> map_of (filter (\<lambda>p. Q (fst p)) (rev ps)) k = Some d"
    by (simp add: OrderedDict_map_of rev_filter)
  also have "\<dots> \<longleftrightarrow> Q k \<and> map_of (rev ps) k = Some d"
    by (simp add: map_of_filter_key)
  finally show ?thesis by (simp add: map_of_rev_last_occurrence)
qed

lemma getitem_slice_ascending:
  assumes inv: "iv_invariant v" and asc: "indexed_ascending v"
  shows "IndexedView_getitem v (Slice start stop None) =
     Inr (Mapping (OrderedDict (filter (\<lambda>p. in_slice start stop (fst p))
            (zip (iv_index_labels v) (iv_data v)))))"
  using asc by (simp add: IndexedView_getitem_def bisect_slice_step_None [OF inv asc])

lemma ascending_slice_properties:
  fixes v :: "('b, 'k::linorder) IndexedView" and start stop :: "'k option"
  assumes inv: "iv_invariant v" and asc: "indexed_ascending v"
  defines "sel \<equiv> filter (\<lambda>p. in_slice start stop (fst p)) (zip (iv_index_labels v) (iv_data v))"
  shows "sorted_wrt (<) (map fst (OrderedDict sel))"
    and "(k, d) \<in> set (OrderedDict sel) \<longleftrightarrow>
       in_slice start stop k \<and>
       (\<exists>ys zs. zip (iv_index_labels v) (iv_data v) = ys @ (k, d) # zs \<and> k \<notin> fst ` set zs)"
    and "distinct (filter (in_slice start stop) (iv_index_labels v)) \<Longrightarrow> OrderedDict sel = sel"
proof -
  let ?ps = "zip (iv_index_labels v) (iv_data v)"
  from inv asc have srt: "sorted (iv_index_labels v)"
    and len: "length (iv_data v) = length (iv_index_labels v)"
    by (simp_all add: iv_invariant_def)
  have keys: "map fst ?ps = iv_index_labels v" using len by simp
  with srt have sps: "sorted (map fst ?ps)" by simp
  then have "sorted (map fst sel)" unfolding sel_def by (rule sorted_filter)
  then show "sorted_wrt (<) (map fst (OrderedDict sel))" by (rule OrderedDict_strictly_sorted)
  show "(k, d) \<in> set (OrderedDict sel) \<longleftrightarrow>
       in_slice start stop k \<and>
       (\<exists>ys zs. zip (iv_index_labels v) (iv_data v) = ys @ (k, d) # zs \<and> k \<notin> fst ` set zs)"
    unfolding sel_def by (rule OrderedDict_filter_member [OF sps])
  have "map fst sel = filter (in_slice start stop) (map fst ?ps)"
    unfolding sel_def by (simp add: filter_map comp_def)
  with keys have "map fst sel = filter (in_slice start stop) (iv_index_labels v)" by simp
  then show "OrderedDict sel = sel"
    if "distinct (filter (in_slice start stop) (iv_index_labels v))"
    using that by (simp add: OrderedDict_distinct)
qed

section \<open>The claims\<close>

subsection \<open>Sorted insertion\<close>

text \<open>
  C1. Whatever \<^verbatim>\<open>record\<close> calls a container constructed with \<^verbatim>\<open>indexed_ascending=True\<close>
  has received (each prefix of a run is a run, and a call that raised is part of it), its
  \<^verbatim>\<open>_index_labels\<close> are in non-decreasing order and \<^verbatim>\<open>_data\<close> has the same length. A further
  call that returns puts the new key behind all strictly smaller keys and in front of all
  keys that are equal or greater, and puts the new snapshot, the copy it has just made, at
  that same position of \<^verbatim>\<open>_data\<close>, which is the number of strictly smaller keys: a tie goes
  to the leftmost position, in front of the entries that hold an equal key.
\<close>

theorem ascending_record_keeps_labels_sorted:
  "sorted (iv_index_labels (snd (recorded h0 bnds True calls))) \<and>
   length (iv_data (snd (recorded h0 bnds True calls))) =
     length (iv_index_labels (snd (recorded h0 bnds True calls))) \<and>
   (\<forall>d k. fst (IndexedView_record (recorded h0 bnds True calls) d k) = Inr () \<longrightarrow>
      iv_index_labels (snd (snd (IndexedView_record (recorded h0 bnds True calls) d k))) =
        filter (\<lambda>y. y < k) (iv_index_labels (snd (recorded h0 bnds True calls))) @ k #
        filter (\<lambda>y. k \<le> y) (iv_index_labels (snd (recorded h0 bnds True calls))) \<and>
      iv_data (snd (snd (IndexedView_record (recorded h0 bnds True calls) d k))) =
        take (length (filter (\<lambda>y. y < k) (iv_index_labels (snd (recorded h0 bnds True calls)))))
          (iv_data (snd (recorded h0 bnds True calls))) @
        PArr (length (fst (recorded h0 bnds True calls))) #
        drop (length (filter (\<lambda>y. y < k) (iv_index_labels (snd (recorded h0 bnds True calls)))))
          (iv_data (snd (recorded h0 bnds True calls))))"
proof -
  obtain h v where s: "recorded h0 bnds True calls = (h, v)"
    by (cases "recorded h0 bnds True calls")
  have inv: "iv_invariant v" and asc: "indexed_ascending v"
    using recorded_invariant [of h0 bnds True calls] recorded_flag [of h0 bnds True calls] s
    by simp_all
  then have srt: "sorted (iv_index_labels v)"
    and len: "length (iv_data v) = length (iv_index_labels v)"
    by (simp_all add: iv_invariant_def)
  have pos: "length (filter (\<lambda>y. y < k) (iv_index_labels v)) = bisect_left (iv_index_labels v) k"
    for k
  proof -
    have "length (filter (\<lambda>y. y < k) (iv_index_labels v)) =
        length (take (bisect_left (iv_index_labels v) k) (iv_index_labels v))"
      by (simp only: bisect_left_filter(1) [OF srt])
    also have "\<dots> = bisect_left (iv_index_labels v) k"
      using bisect_left_le_length [of "iv_index_labels v" k] by simp
    finally show ?thesis .
  qed
  have ties: "iv_index_labels (snd (snd (IndexedView_record (h, v) d k))) =
      filter (\<lambda>y. y < k) (iv_index_labels v) @ k # filter (\<lambda>y. k \<le> y) (iv_index_labels v) \<and>
    iv_data (snd (snd (IndexedView_record (h, v) d k))) =
      take (length (filter (\<lambda>y. y < k) (iv_index_labels v))) (iv_data v) @ PArr (length h) #
      drop (length (filter (\<lambda>y. y < k) (iv_index_labels v))) (iv_data v)"
    if "fst (IndexedView_record (h, v) d k) = Inr ()" for d k
  proof -
    from that have c: "copyable h d" by (cases "copyable h d") (simp_all add: record_fail)
    have "iv_index_labels (snd (snd (IndexedView_record (h, v) d k))) =
      filter (\<lambda>y. y < k) (iv_index_labels v) @ k # filter (\<lambda>y. k \<le> y) (iv_index_labels v)"
      by (simp add: record_ascending [OF c asc] list_insert_def bisect_left_filter [OF srt])
    moreover have "iv_data (snd (snd (IndexedView_record (h, v) d k))) =
      take (length (filter (\<lambda>y. y < k) (iv_index_labels v))) (iv_data v) @ PArr (length h) #
      drop (length (filter (\<lambda>y. y < k) (iv_index_labels v))) (iv_data v)"
      unfolding pos by (simp add: record_ascending [OF c asc] list_insert_def)
    ultimately show ?thesis ..
  qed
  from srt len ties show ?thesis unfolding s by simp
qed

theorem ascending_record_keeps_labels_sorted_witness:
  "sorted (iv_index_labels (snd (recorded [NDArray (2, 2) [1, 2, 3, 4::int]] () True
       [(PArr 0, 1::int), (PArr 0, 3), (PArr 0, 2)]))) \<and>
   iv_index_labels (snd (recorded [NDArray (2, 2) [1, 2, 3, 4::int]] () True
       [(PArr 0, 1::int), (PArr 0, 3), (PArr 0, 2)])) = [1, 2, 3] \<and>
   length (iv_data (snd (recorded [NDArray (2, 2) [1, 2, 3, 4::int]] () True
       [(PArr 0, 1::int), (PArr 0, 3), (PArr 0, 2)]))) = 3 \<and>
   fst (IndexedView_record (recorded [NDArray (2, 2) [1, 2, 3, 4::int]] () True
       [(PArr 0, 1::int), (PArr 0, 3), (PArr 0, 2)]) (PArr 0) 2) = Inr () \<and>
   iv_index_labels (snd (snd (IndexedView_record (recorded [NDArray (2, 2) [1, 2, 3, 4::int]] () True
       [(PArr 0, 1::int), (PArr 0, 3), (PArr 0, 2)]) (PArr 0) 2))) = [1, 2, 2, 3] \<and>
   iv_data (snd (snd (IndexedView_record (recorded [NDArray (2, 2) [1, 2, 3, 4::int]] () True
       [(PArr 0, 1::int), (PArr 0, 3), (PArr 0, 2)]) (PArr 0) 2))) = [PArr 1, PArr 4, PArr 3, PArr 2]"
proof -
  have run: "recorded [NDArray (2, 2) [1, 2, 3, 4::int]] () True
       [(PArr 0, 1::int), (PArr 0, 3), (PArr 0, 2)] =
     ([NDArray (2, 2) [1, 2, 3, 4], NDArray (2, 2) [1, 2, 3, 4], NDArray (2, 2) [1, 2, 3, 4],
       NDArray (2, 2) [1, 2, 3, 4]],
      \<lparr>iv_bounds = (), indexed_feature = ''time'', indexed_ascending = True,
       iv_data = [PArr 1, PArr 3, PArr 2], iv_index_labels = [1, 2, 3]\<rparr>)"
    by code_simp
  have call: "fst (IndexedView_record (recorded [NDArray (2, 2) [1, 2, 3, 4::int]] () True
       [(PArr 0, 1::int), (PArr 0, 3), (PArr 0, 2)]) (PArr 0) 2) = Inr ()"
    by code_simp
  from ascending_record_keeps_labels_sorted
    [of "[NDArray (2, 2) [1, 2, 3, 4::int]]" "()" "[(PArr 0, 1::int), (PArr 0, 3), (PArr 0, 2)]"]
  have "iv_index_labels (snd (snd (IndexedView_record (recorded [NDArray (2, 2) [1, 2, 3, 4::int]] () True
       [(PArr 0, 1::int), (PArr 0, 3), (PArr 0, 2)]) (PArr 0) 2))) =
      filter (\<lambda>y. y < 2) (iv_index_labels (snd (recorded [NDArray (2, 2) [1, 2, 3, 4::int]] () True
       [(PArr 0, 1::int), (PArr 0, 3), (PArr 0, 2)]))) @ 2 #
      filter (\<lambda>y. 2 \<le> y) (iv_index_labels (snd (recorded [NDArray (2, 2) [1, 2, 3, 4::int]] () True
       [(PArr 0, 1::int), (PArr 0, 3), (PArr 0, 2)])))"
    "iv_data (snd (snd (IndexedView_record (recorded [NDArray (2, 2) [1, 2, 3, 4::int]] () True
       [(PArr 0, 1::int), (PArr 0, 3), (PArr 0, 2)]) (PArr 0) 2))) =
      take (length (filter (\<lambda>y. y < 2) (iv_index_labels (snd (recorded
         [NDArray (2, 2) [1, 2, 3, 4::int]] () True [(PArr 0, 1::int), (PArr 0, 3), (PArr 0, 2)])))))
        (iv_data (snd (recorded [NDArray (2, 2) [1, 2, 3, 4::int]] () True
           [(PArr 0, 1::int), (PArr 0, 3), (PArr 0, 2)]))) @
      PArr (length (fst (recorded [NDArray (2, 2) [1, 2, 3, 4::int]] () True
           [(PArr 0, 1::int), (PArr 0, 3), (PArr 0, 2)]))) #
      drop (length (filter (\<lambda>y. y < 2) (iv_index_labels (snd (recorded
         [NDArray (2, 2) [1, 2, 3, 4::int]] () True [(PArr 0, 1::int), (PArr 0, 3), (PArr 0, 2)])))))
        (iv_data (snd (recorded [NDArray (2, 2) [1, 2, 3, 4::int]] () True
           [(PArr 0, 1::int), (PArr 0, 3), (PArr 0, 2)])))"
    using call(1) by blast+
  then have "iv_index_labels (snd (snd (IndexedView_record (recorded [NDArray (2, 2) [1, 2, 3, 4::int]] () True
       [(PArr 0, 1::int), (PArr 0, 3), (PArr 0, 2)]) (PArr 0) 2))) = [1, 2, 2, 3]"
    "iv_data (snd (snd (IndexedView_record (recorded [NDArray (2, 2) [1, 2, 3, 4::int]] () True
       [(PArr 0, 1::int), (PArr 0, 3), (PArr 0, 2)]) (PArr 0) 2))) = [PArr 1, PArr 4, PArr 3, PArr 2]"
    unfolding run by simp_all
  then show ?thesis using call(1) unfolding run by simp
qed

subsection \<open>Slices in ascending mode\<close>

text \<open>
  C2, as it is stated: in ascending mode \<^verbatim>\<open>container[a:b]\<close> returns an ordered mapping that
  contains exactly the stored entries whose key is in the range. It fails where a key is
  stored twice: the mapping is an \<^verbatim>\<open>OrderedDict\<close>, which holds one entry for a key. Here the
  key 1 is recorded twice; both entries are in the range of \<^verbatim>\<open>[0:5]\<close>, and the mapping holds
  the one at the second position only.
\<close>

theorem ascending_slice_duplicate_keys_counterexample:
  "iv_index_labels (snd (recorded [NDArray (1, 1) [7::int]] () True
       [(PArr 0, 1::int), (PArr 0, 1)])) = [1, 1] \<and>
   iv_data (snd (recorded [NDArray (1, 1) [7::int]] () True
       [(PArr 0, 1::int), (PArr 0, 1)])) = [PArr 2, PArr 1] \<and>
   in_slice (Some 0) (Some 5) (1::int) \<and>
   IndexedView_getitem (snd (recorded [NDArray (1, 1) [7::int]] () True
       [(PArr 0, 1::int), (PArr 0, 1)])) (Slice (Some 0) (Some 5) None) =
     Inr (Mapping [(1, PArr 1)])"
  by code_simp

text \<open>
  C2, amended. In ascending mode \<^verbatim>\<open>container[start:stop]\<close> with no step returns an ordered
  mapping \<open>od\<close> whose keys are strictly ascending, and that contains exactly the stored
  entries \<open>(k, d)\<close> whose key is in the range (\<open>start \<le> k < stop\<close>, an endpoint \<^verbatim>\<open>None\<close>
  leaving its side open) and behind which no entry with the same key is stored: of the
  stored entries that share a key, the one at the rightmost position, and none of the
  others. Where the keys in the range are pairwise distinct, \<open>od\<close> is the list of the stored
  entries with a key in the range, in stored order.
\<close>

theorem ascending_slice_selects_range:
  "\<exists>od. IndexedView_getitem (snd (recorded h0 bnds True calls)) (Slice start stop None) =
       Inr (Mapping od) \<and>
     sorted_wrt (<) (map fst od) \<and>
     (\<forall>k d. (k, d) \<in> set od \<longleftrightarrow>
        in_slice start stop k \<and>
        (\<exists>ys zs. zip (iv_index_labels (snd (recorded h0 bnds True calls)))
                    (iv_data (snd (recorded h0 bnds True calls))) = ys @ (k, d) # zs \<and>
                 k \<notin> fst ` set zs)) \<and>
     (distinct (filter (in_slice start stop) (iv_index_labels (snd (recorded h0 bnds True calls)))) \<longrightarrow>
        od = filter (\<lambda>p. in_slice start stop (fst p))
               (zip (iv_index_labels (snd (recorded h0 bnds True calls)))
                    (iv_data (snd (recorded h0 bnds True calls)))))"
proof -
  define v where "v = snd (recorded h0 bnds True calls)"
  have inv: "iv_invariant v" and asc: "indexed_ascending v"
    unfolding v_def by (simp_all add: recorded_invariant recorded_flag)
  let ?sel = "filter (\<lambda>p. in_slice start stop (fst p)) (zip (iv_index_labels v) (iv_data v))"
  have "IndexedView_getitem v (Slice start stop None) = Inr (Mapping (OrderedDict ?sel))"
    by (rule getitem_slice_ascending [OF inv asc])
  moreover have "sorted_wrt (<) (map fst (OrderedDict ?sel))"
    by (rule ascending_slice_properties(1) [OF inv asc])
  moreover have "\<forall>k d. (k, d) \<in> set (OrderedDict ?sel) \<longleftrightarrow>
        in_slice start stop k \<and>
        (\<exists>ys zs. zip (iv_index_labels v) (iv_data v) = ys @ (k, d) # zs \<and> k \<notin> fst ` set zs)"
    by (intro allI ascending_slice_properties(2) [OF inv asc])
  moreover have "distinct (filter (in_slice start stop) (iv_index_labels v)) \<longrightarrow>
      OrderedDict ?sel = ?sel"
    by (intro impI ascending_slice_properties(3) [OF inv asc])
  ultimately show ?thesis unfolding v_def by blast
qed

theorem ascending_slice_selects_range_witness:
  "distinct (filter (in_slice (Some 1) (Some 3))
      (iv_index_labels (snd (recorded [NDArray (2, 2) [1, 2, 3, 4::int]] () True
         [(PArr 0, 1::int), (PArr 0, 3), (PArr 0, 2)])))) \<and>
   zip (iv_index_labels (snd (recorded [NDArray (2, 2) [1, 2, 3, 4::int]] () True
         [(PArr 0, 1::int), (PArr 0, 3), (PArr 0, 2)])))
       (iv_data (snd (recorded [NDArray (2, 2) [1, 2, 3, 4::int]] () True
         [(PArr 0, 1::int), (PArr 0, 3), (PArr 0, 2)]))) =
     [(1, PArr 1), (2, PArr 3), (3, PArr 2)] \<and>
   IndexedView_getitem (snd (recorded [NDArray (2, 2) [1, 2, 3, 4::int]] () True
         [(PArr 0, 1::int), (PArr 0, 3), (PArr 0, 2)])) (Slice (Some 1) (Some 3) None) =
     Inr (Mapping [(1, PArr 1), (2, PArr 3)]) \<and>
   IndexedView_getitem (snd (recorded [NDArray (2, 2) [1, 2, 3, 4::int]] () True
         [(PArr 0, 1::int), (PArr 0, 3), (PArr 0, 2)])) (Slice None (Some 3) None) =
     Inr (Mapping [(1, PArr 1), (2, PArr 3)]) \<and>
   IndexedView_getitem (snd (recorded [NDArray (2, 2) [1, 2, 3, 4::int]] () True
         [(PArr 0, 1::int), (PArr 0, 3), (PArr 0, 2)])) (Slice (Some 2) None None) =
     Inr (Mapping [(2, PArr 3), (3, PArr 2)])"
proof -
  have ev: "distinct (filter (in_slice (Some 1) (Some 3))
      (iv_index_labels (snd (recorded [NDArray (2, 2) [1, 2, 3, 4::int]] () True
         [(PArr 0, 1::int), (PArr 0, 3), (PArr 0, 2)]))))"
    "zip (iv_index_labels (snd (recorded [NDArray (2, 2) [1, 2, 3, 4::int]] () True
         [(PArr 0, 1::int), (PArr 0, 3), (PArr 0, 2)])))
       (iv_data (snd (recorded [NDArray (2, 2) [1, 2, 3, 4::int]] () True
         [(PArr 0, 1::int), (PArr 0, 3), (PArr 0, 2)]))) =
     [(1, PArr 1), (2, PArr 3), (3, PArr 2)]"
    "IndexedView_getitem (snd (recorded [NDArray (2, 2) [1, 2, 3, 4::int]] () True
         [(PArr 0, 1::int), (PArr 0, 3), (PArr 0, 2)])) (Slice None (Some 3) None) =
     Inr (Mapping [(1, PArr 1), (2, PArr 3)])"
    "IndexedView_getitem (snd (recorded [NDArray (2, 2) [1, 2, 3, 4::int]] () True
         [(PArr 0, 1::int), (PArr 0, 3), (PArr 0, 2)])) (Slice (Some 2) None None) =
     Inr (Mapping [(2, PArr 3), (3, PArr 2)])"
    by code_simp+
  have sel: "filter (\<lambda>p. in_slice (Some 1) (Some 3) (fst p))
       [(1::int, PArr 1), (2, PArr 3), (3, PArr 2)] = [(1, PArr 1), (2, PArr 3)]"
    by (simp add: in_slice_def)
  from ascending_slice_selects_range
    [of "[NDArray (2, 2) [1, 2, 3, 4::int]]" "()" "[(PArr 0, 1::int), (PArr 0, 3), (PArr 0, 2)]"
      "Some 1" "Some 3"] ev(1)
  have "IndexedView_getitem (snd (recorded [NDArray (2, 2) [1, 2, 3, 4::int]] () True
         [(PArr 0, 1::int), (PArr 0, 3), (PArr 0, 2)])) (Slice (Some 1) (Some 3) None) =
     Inr (Mapping (filter (\<lambda>p. in_slice (Some 1) (Some 3) (fst p))
       (zip (iv_index_labels (snd (recorded [NDArray (2, 2) [1, 2, 3, 4::int]] () True
         [(PArr 0, 1::int), (PArr 0, 3), (PArr 0, 2)])))
       (iv_data (snd (recorded [NDArray (2, 2) [1, 2, 3, 4::int]] () True
         [(PArr 0, 1::int), (PArr 0, 3), (PArr 0, 2)]))))))"
    by auto
  then have "IndexedView_getitem (snd (recorded [NDArray (2, 2) [1, 2, 3, 4::int]] () True
         [(PArr 0, 1::int), (PArr 0, 3), (PArr 0, 2)])) (Slice (Some 1) (Some 3) None) =
     Inr (Mapping [(1, PArr 1), (2, PArr 3)])"
    unfolding ev(2) sel .
  with ev show ?thesis by simp
qed

subsection \<open>Point lookup in ascending mode\<close>

text \<open>
  C3. In ascending mode, \<^verbatim>\<open>container[k]\<close> with a key \<open>k\<close> that is stored returns the snapshot
  at the leftmost position whose label equals \<open>k\<close>; with a key that is not stored it raises
  \<^verbatim>\<open>ValueError\<close>, the key-not-found error of \<^verbatim>\<open>_bisect_index\<close>. After \<^verbatim>\<open>record(d, k)\<close>
  of an array \<open>d\<close>, \<^verbatim>\<open>container[k]\<close> returns the copy that this call has just stored,
  whatever duplicates of \<open>k\<close> were there before.
\<close>

theorem ascending_point_lookup_leftmost:
  "(k \<in> set (iv_index_labels (snd (recorded h0 bnds True calls))) \<longrightarrow>
      (\<exists>i<length (iv_index_labels (snd (recorded h0 bnds True calls))).
         iv_index_labels (snd (recorded h0 bnds True calls)) ! i = k \<and>
         (\<forall>j<i. iv_index_labels (snd (recorded h0 bnds True calls)) ! j \<noteq> k) \<and>
         IndexedView_getitem (snd (recorded h0 bnds True calls)) (Key k) =
           Inr (Snapshot (iv_data (snd (recorded h0 bnds True calls)) ! i)))) \<and>
   (k \<notin> set (iv_index_labels (snd (recorded h0 bnds True calls))) \<longrightarrow>
      IndexedView_getitem (snd (recorded h0 bnds True calls)) (Key k) = Inl ValueError) \<and>
   (\<forall>a<length (fst (recorded h0 bnds True calls)).
      IndexedView_getitem
        (snd (snd (IndexedView_record (recorded h0 bnds True calls) (PArr a) k))) (Key k) =
        Inr (Snapshot (PArr (length (fst (recorded h0 bnds True calls))))))"
proof -
  obtain h v where s: "recorded h0 bnds True calls = (h, v)"
    by (cases "recorded h0 bnds True calls")
  have inv: "iv_invariant v" and asc: "indexed_ascending v"
    using recorded_invariant [of h0 bnds True calls] recorded_flag [of h0 bnds True calls] s
    by simp_all
  then have srt: "sorted (iv_index_labels v)" by (simp add: iv_invariant_def)
  have found: "\<exists>i<length (iv_index_labels v). iv_index_labels v ! i = k \<and>
         (\<forall>j<i. iv_index_labels v ! j \<noteq> k) \<and>
         IndexedView_getitem v (Key k) = Inr (Snapshot (iv_data v ! i))"
    if mem: "k \<in> set (iv_index_labels v)"
  proof -
    from bisect_left_member [OF srt mem]
    have "bisect_left (iv_index_labels v) k < length (iv_index_labels v)"
      "iv_index_labels v ! bisect_left (iv_index_labels v) k = k"
      "\<forall>j<bisect_left (iv_index_labels v) k. iv_index_labels v ! j \<noteq> k"
      by auto
    with lookup_found [OF inv asc mem] show ?thesis by blast
  qed
  from found lookup_missing [OF asc, of k] lookup_after_record [OF inv asc, of _ h k]
  show ?thesis unfolding s by simp
qed

theorem ascending_point_lookup_leftmost_witness:
  "(2::int) \<in> set (iv_index_labels (snd (recorded [NDArray (2, 2) [1, 2, 3, 4::int]] () True
       [(PArr 0, 2), (PArr 0, 3), (PArr 0, 2)]))) \<and>
   iv_index_labels (snd (recorded [NDArray (2, 2) [1, 2, 3, 4::int]] () True
       [(PArr 0, 2::int), (PArr 0, 3), (PArr 0, 2)])) = [2, 2, 3] \<and>
   iv_data (snd (recorded [NDArray (2, 2) [1, 2, 3, 4::int]] () True
       [(PArr 0, 2::int), (PArr 0, 3), (PArr 0, 2)])) = [PArr 3, PArr 1, PArr 2] \<and>
   IndexedView_getitem (snd (recorded [NDArray (2, 2) [1, 2, 3, 4::int]] () True
       [(PArr 0, 2::int), (PArr 0, 3), (PArr 0, 2)])) (Key 2) = Inr (Snapshot (PArr 3)) \<and>
   (5::int) \<notin> set (iv_index_labels (snd (recorded [NDArray (2, 2) [1, 2, 3, 4::int]] () True
       [(PArr 0, 2), (PArr 0, 3), (PArr 0, 2)]))) \<and>
   IndexedView_getitem (snd (recorded [NDArray (2, 2) [1, 2, 3, 4::int]] () True
       [(PArr 0, 2::int), (PArr 0, 3), (PArr 0, 2)])) (Key 5) = Inl ValueError \<and>
   (0::nat) < length (fst (recorded [NDArray (2, 2) [1, 2, 3, 4::int]] () True
       [(PArr 0, 2::int), (PArr 0, 3), (PArr 0, 2)])) \<and>
   IndexedView_getitem (snd (snd (IndexedView_record
       (recorded [NDArray (2, 2) [1, 2, 3, 4::int]] () True
          [(PArr 0, 2::int), (PArr 0, 3), (PArr 0, 2)]) (PArr 0) 2))) (Key 2) =
     Inr (Snapshot (PArr 4))"
proof -
  have ev: "(2::int) \<in> set (iv_index_labels (snd (recorded [NDArray (2, 2) [1, 2, 3, 4::int]] () True
       [(PArr 0, 2), (PArr 0, 3), (PArr 0, 2)])))"
    "iv_index_labels (snd (recorded [NDArray (2, 2) [1, 2, 3, 4::int]] () True
       [(PArr 0, 2::int), (PArr 0, 3), (PArr 0, 2)])) = [2, 2, 3]"
    "iv_data (snd (recorded [NDArray (2, 2) [1, 2, 3, 4::int]] () True
       [(PArr 0, 2::int), (PArr 0, 3), (PArr 0, 2)])) = [PArr 3, PArr 1, PArr 2]"
    "IndexedView_getitem (snd (recorded [NDArray (2, 2) [1, 2, 3, 4::int]] () True
       [(PArr 0, 2::int), (PArr 0, 3), (PArr 0, 2)])) (Key 2) = Inr (Snapshot (PArr 3))"
    "(5::int) \<notin> set (iv_index_labels (snd (recorded [NDArray (2, 2) [1, 2, 3, 4::int]] () True
       [(PArr 0, 2), (PArr 0, 3), (PArr 0, 2)])))"
    "(0::nat) < length (fst (recorded [NDArray (2, 2) [1, 2, 3, 4::int]] () True
       [(PArr 0, 2::int), (PArr 0, 3), (PArr 0, 2)]))"
    "IndexedView_getitem (snd (snd (IndexedView_record
       (recorded [NDArray (2, 2) [1, 2, 3, 4::int]] () True
          [(PArr 0, 2::int), (PArr 0, 3), (PArr 0, 2)]) (PArr 0) 2))) (Key 2) =
     Inr (Snapshot (PArr 4))"
    by code_simp+
  from ev(5) ascending_point_lookup_leftmost
    [of 5 "[NDArray (2, 2) [1, 2, 3, 4::int]]" "()" "[(PArr 0, 2::int), (PArr 0, 3), (PArr 0, 2)]"]
  have "IndexedView_getitem (snd (recorded [NDArray (2, 2) [1, 2, 3, 4::int]] () True
       [(PArr 0, 2::int), (PArr 0, 3), (PArr 0, 2)])) (Key 5) = Inl ValueError"
    by blast
  with ev show ?thesis by simp
qed

subsection \<open>Slices in unordered mode\<close>

text \<open>
  C4. With \<^verbatim>\<open>indexed_ascending=False\<close>, \<^verbatim>\<open>container[a:b]\<close> is to return the stored pairs
  whose key lies strictly between the smaller and the greater endpoint. The filter of the
  comprehension reads the name \<^verbatim>\<open>l\<close>, which nothing binds, so the slice raises
  \<^verbatim>\<open>NameError\<close> as soon as one pair is stored. Here one snapshot is stored under the key 2
  and the slice is \<^verbatim>\<open>[1:3]\<close>.
\<close>

theorem unordered_slice_raises_NameError:
  "iv_index_labels (snd (recorded [NDArray (1, 1) [7::int]] () False [(PArr 0, 2::int)])) = [2] \<and>
   iv_data (snd (recorded [NDArray (1, 1) [7::int]] () False [(PArr 0, 2::int)])) = [PArr 1] \<and>
   IndexedView_getitem (snd (recorded [NDArray (1, 1) [7::int]] () False [(PArr 0, 2::int)]))
     (Slice (Some 1) (Some 3) None) = Inl NameError"
  by (simp add: recorded_def IndexedView_getitem_def IndexedView_record_def IndexedView_init_def
      py_copy_def deref_def heap_get_def unordered_filter_def)

subsection \<open>Sampling a DataView\<close>

text \<open>
  C5. After \<^verbatim>\<open>record(data)\<close>, \<^verbatim>\<open>sample(coords)\<close> of a DataView is to return the stored
  snapshot's value at the index of the coordinates. The method reads the name \<^verbatim>\<open>data\<close>,
  which nothing binds, where \<^verbatim>\<open>IndexedView.sample\<close> reads its loop variable over
  \<^verbatim>\<open>self._data\<close>: it raises \<^verbatim>\<open>NameError\<close>. Here the snapshot is a 2 by 2 array holding 1 at
  \<open>(0, 0)\<close>, the index the hook yields.
\<close>

theorem DataView_sample_raises_NameError:
  "DataView_sample (\<lambda>bnds coords arr. Inr (0, 0)) [NDArray (2, 2) [1, 2, 3, 4::int]]
     (DataView_record (DataView_init ()) (PArr 0)) (0::int, 0::int) = Inl NameError \<and>
   sample_one (\<lambda>bnds coords arr. Inr (0, 0)) [NDArray (2, 2) [1, 2, 3, 4::int]] ()
     (0::int, 0::int) (dv_data (DataView_record (DataView_init ()) (PArr 0))) = Inr 1"
  by (simp add: DataView_sample_def DataView_record_def DataView_init_def sample_one_def
      deref_def heap_get_def nd_getitem_def nd_axis_def)

subsection \<open>Containers that have recorded nothing\<close>

text \<open>
  C6, as it is stated: on a container that has never recorded anything, both
  \<^verbatim>\<open>sample(coords)\<close> and \<^verbatim>\<open>view()\<close> raise an empty-container error and never return a
  \<^verbatim>\<open>None\<close> snapshot. It fails: \<^verbatim>\<open>view()\<close> of a new DataView returns the pair of \<^verbatim>\<open>None\<close> and
  the bounds, and \<^verbatim>\<open>sample(coords)\<close> of a new IndexedView returns the empty list.
\<close>

theorem fresh_container_returns_counterexample:
  "DataView_view (DataView_init ()) = Inr (PNone, ()) \<and>
   IndexedView_sample IndexedView_coords2matrixidx ([] :: int heap)
     (IndexedView_init () True :: (unit, int) IndexedView) (0::int, 0::int) = Inr []"
  by (simp add: DataView_view_def DataView_init_def IndexedView_sample_def IndexedView_init_def)

text \<open>
  C6, amended. The module has no empty-container check. On a new IndexedView, in either
  mode, \<^verbatim>\<open>view()\<close> raises the \<^verbatim>\<open>IndexError\<close> of \<^verbatim>\<open>self._data[-1]\<close> and \<^verbatim>\<open>sample(coords)\<close>
  returns the empty list, whatever the coordinate hook; on a new DataView \<^verbatim>\<open>view()\<close>
  returns \<^verbatim>\<open>(None, bounds)\<close>.
\<close>

theorem fresh_container_behaviour:
  "IndexedView_view (IndexedView_init bnds asc) = Inl IndexError \<and>
   IndexedView_sample c2m h (IndexedView_init bnds asc) coords = Inr [] \<and>
   DataView_view (DataView_init bnds) = Inr (PNone, bnds)"
  by (simp add: DataView_view_def DataView_init_def IndexedView_sample_def IndexedView_init_def
      IndexedView_view_def list_last_def)

subsection \<open>Copies\<close>

text \<open>
  C7. In either mode, \<^verbatim>\<open>record\<close> of an array stores a reference to a newly allocated array,
  not the caller's reference. The stored array holds the value the caller's array has at
  the call, and still holds it after the caller has overwritten its own array with any
  value.
\<close>

theorem record_stores_independent_copy:
  assumes "a < length h"
  shows "fst (IndexedView_record (h, v) (PArr a) k) = Inr () \<and>
     (\<exists>i. i \<le> length (iv_data v) \<and>
        iv_data (snd (snd (IndexedView_record (h, v) (PArr a) k))) =
          take i (iv_data v) @ PArr (length h) # drop i (iv_data v)) \<and>
     PArr (length h) \<noteq> PArr a \<and>
     deref (fst (snd (IndexedView_record (h, v) (PArr a) k))) (PArr (length h)) = deref h (PArr a) \<and>
     (\<forall>arr. deref (heap_set (fst (snd (IndexedView_record (h, v) (PArr a) k))) a arr)
              (PArr (length h)) = deref h (PArr a))"
proof -
  have c: "copyable h (PArr a)" using assms by (simp add: copyable_def)
  have ne: "PArr (length h) \<noteq> PArr a" using assms by simp
  have d1: "deref (h @ [the (deref h (PArr a))]) (PArr (length h)) = deref h (PArr a)"
    using assms by (simp add: deref_def heap_get_def)
  have d2: "deref (heap_set (h @ [the (deref h (PArr a))]) a arr) (PArr (length h)) =
      deref h (PArr a)" for arr
    using assms by (simp add: deref_def heap_get_def heap_set_def)
  show ?thesis
  proof (cases "indexed_ascending v")
    case True
    have "\<exists>i. i \<le> length (iv_data v) \<and>
        list_insert (iv_data v) (bisect_left (iv_index_labels v) k) (PArr (length h)) =
          take i (iv_data v) @ PArr (length h) # drop i (iv_data v)"
    proof (cases "bisect_left (iv_index_labels v) k \<le> length (iv_data v)")
      case True
      then show ?thesis unfolding list_insert_def by blast
    next
      case False
      then have "list_insert (iv_data v) (bisect_left (iv_index_labels v) k) (PArr (length h)) =
         take (length (iv_data v)) (iv_data v) @ PArr (length h) #
         drop (length (iv_data v)) (iv_data v)"
        by (simp add: list_insert_def)
      then show ?thesis by blast
    qed
    with ne d1 d2 show ?thesis by (simp add: record_ascending [OF c True])
  next
    case False
    have "\<exists>i. i \<le> length (iv_data v) \<and>
        iv_data v @ [PArr (length h)] = take i (iv_data v) @ PArr (length h) # drop i (iv_data v)"
      by (intro exI [of _ "length (iv_data v)"]) simp
    with ne d1 d2 show ?thesis by (simp add: record_unordered [OF c False])
  qed
qed

theorem record_stores_independent_copy_witness:
  "(0::nat) < length [NDArray (2, 2) [1, 2, 3, 4::int]] \<and>
   iv_data (snd (snd (IndexedView_record
      ([NDArray (2, 2) [1, 2, 3, 4::int]], IndexedView_init () True) (PArr 0) (1::int)))) = [PArr 1] \<and>
   deref (heap_set (fst (snd (IndexedView_record
      ([NDArray (2, 2) [1, 2, 3, 4::int]], IndexedView_init () True) (PArr 0) (1::int))))
        0 (NDArray (2, 2) [9, 9, 9, 9])) (PArr 1) = Some (NDArray (2, 2) [1, 2, 3, 4]) \<and>
   deref (heap_set (fst (snd (IndexedView_record
      ([NDArray (2, 2) [1, 2, 3, 4::int]], IndexedView_init () True) (PArr 0) (1::int))))
        0 (NDArray (2, 2) [9, 9, 9, 9])) (PArr 0) = Some (NDArray (2, 2) [9, 9, 9, 9])"
proof -
  have len: "(0::nat) < length [NDArray (2, 2) [1, 2, 3, 4::int]]" by simp
  have ev: "iv_data (snd (snd (IndexedView_record
      ([NDArray (2, 2) [1, 2, 3, 4::int]], IndexedView_init () True) (PArr 0) (1::int)))) = [PArr 1]"
    "deref (heap_set (fst (snd (IndexedView_record
      ([NDArray (2, 2) [1, 2, 3, 4::int]], IndexedView_init () True) (PArr 0) (1::int))))
        0 (NDArray (2, 2) [9, 9, 9, 9])) (PArr 0) = Some (NDArray (2, 2) [9, 9, 9, 9])"
    by code_simp+
  from record_stores_independent_copy [OF len, of "IndexedView_init () True" "1::int"]
  have "deref (heap_set (fst (snd (IndexedView_record
      ([NDArray (2, 2) [1, 2, 3, 4::int]], IndexedView_init () True) (PArr 0) (1::int))))
        0 (NDArray (2, 2) [9, 9, 9, 9])) (PArr (length [NDArray (2, 2) [1, 2, 3, 4::int]])) =
      deref [NDArray (2, 2) [1, 2, 3, 4::int]] (PArr 0)"
    by blast
  then have "deref (heap_set (fst (snd (IndexedView_record
      ([NDArray (2, 2) [1, 2, 3, 4::int]], IndexedView_init () True) (PArr 0) (1::int))))
        0 (NDArray (2, 2) [9, 9, 9, 9])) (PArr 1) = Some (NDArray (2, 2) [1, 2, 3, 4])"
    by (simp add: deref_def heap_get_def)
  with len ev show ?thesis by simp
qed

subsection \<open>Sampling an IndexedView\<close>

text \<open>
  C8. \<^verbatim>\<open>sample(coords)\<close> of an IndexedView returns the sequence \<open>ys\<close> exactly when \<open>ys\<close> has
  one value for each of the \<open>N\<close> stored snapshots, in stored order, the \<open>i\<close>-th being what
  the \<open>i\<close>-th snapshot holds at the index that the coordinate hook yields for the
  coordinates and that very snapshot. (It returns at all exactly when the hook and the
  subscript succeed on every snapshot; with no snapshot it returns the empty sequence.)
\<close>

theorem IndexedView_sample_one_value_per_snapshot:
  "IndexedView_sample c2m h v coords = Inr ys \<longleftrightarrow>
     length ys = length (iv_data v) \<and>
     (\<forall>i<length (iv_data v). \<exists>arr idx.
        deref h (iv_data v ! i) = Some arr \<and>
        c2m (iv_bounds v) coords arr = Inr idx \<and>
        nd_getitem arr idx = Inr (ys ! i))"
  by (simp add: IndexedView_sample_def comprehension_Inr_iff sample_one_Inr_iff)

theorem IndexedView_sample_one_value_per_snapshot_witness:
  "IndexedView_sample (\<lambda>bnds coords arr. Inr (0, int (snd (shape arr)) - 1))
     (fst (recorded [NDArray (2, 2) [1, 2, 3, 4::int], NDArray (1, 3) [5, 6, 7]] () True
        [(PArr 0, 1::int), (PArr 1, 2)]))
     (snd (recorded [NDArray (2, 2) [1, 2, 3, 4::int], NDArray (1, 3) [5, 6, 7]] () True
        [(PArr 0, 1::int), (PArr 1, 2)]))
     (0::int, 0::int) = Inr [2, 7] \<and>
   length [2, 7::int] =
     length (iv_data (snd (recorded [NDArray (2, 2) [1, 2, 3, 4::int], NDArray (1, 3) [5, 6, 7]]
        () True [(PArr 0, 1::int), (PArr 1, 2)])))"
proof -
  have ev: "IndexedView_sample (\<lambda>bnds coords arr. Inr (0, int (snd (shape arr)) - 1))
     (fst (recorded [NDArray (2, 2) [1, 2, 3, 4::int], NDArray (1, 3) [5, 6, 7]] () True
        [(PArr 0, 1::int), (PArr 1, 2)]))
     (snd (recorded [NDArray (2, 2) [1, 2, 3, 4::int], NDArray (1, 3) [5, 6, 7]] () True
        [(PArr 0, 1::int), (PArr 1, 2)]))
     (0::int, 0::int) = Inr [2, 7]"
    by code_simp
  with IndexedView_sample_one_value_per_snapshot
    [of "\<lambda>bnds coords arr. Inr (0, int (snd (shape arr)) - 1)"
      "fst (recorded [NDArray (2, 2) [1, 2, 3, 4::int], NDArray (1, 3) [5, 6, 7]] () True
        [(PArr 0, 1::int), (PArr 1, 2)])"
      "snd (recorded [NDArray (2, 2) [1, 2, 3, 4::int], NDArray (1, 3) [5, 6, 7]] () True
        [(PArr 0, 1::int), (PArr 1, 2)])"
      "(0::int, 0::int)" "[2, 7]"]
  show ?thesis by blast
qed

subsection \<open>Failure of \<^verbatim>\<open>record\<close>\<close>

text \<open>
  C9. A \<^verbatim>\<open>record\<close> call on a container in any state it can have reached either returns,
  and then \<^verbatim>\<open>_data\<close> and \<^verbatim>\<open>_index_labels\<close> have each gained exactly one entry, at one and the
  same position \<open>i\<close>, with nothing else of the object changed; or it raises, and then the
  object and the store are what they were before the call.
\<close>

theorem record_all_or_nothing:
  "(fst (IndexedView_record (recorded h0 bnds asc calls) d k) = Inr () \<and>
      (\<exists>i c. i \<le> length (iv_data (snd (recorded h0 bnds asc calls))) \<and>
         snd (snd (IndexedView_record (recorded h0 bnds asc calls) d k)) =
           (snd (recorded h0 bnds asc calls))
           \<lparr>iv_data := take i (iv_data (snd (recorded h0 bnds asc calls))) @ c #
                 drop i (iv_data (snd (recorded h0 bnds asc calls))),
             iv_index_labels := take i (iv_index_labels (snd (recorded h0 bnds asc calls))) @ k #
                 drop i (iv_index_labels (snd (recorded h0 bnds asc calls)))\<rparr>)) \<or>
    (\<exists>e. fst (IndexedView_record (recorded h0 bnds asc calls) d k) = Inl e \<and>
         snd (IndexedView_record (recorded h0 bnds asc calls) d k) = recorded h0 bnds asc calls)"
proof -
  obtain h v where s: "recorded h0 bnds asc calls = (h, v)"
    by (cases "recorded h0 bnds asc calls")
  have "iv_invariant v"
    using recorded_invariant [of h0 bnds asc calls] s by simp
  then have len: "length (iv_data v) = length (iv_index_labels v)"
    by (simp add: iv_invariant_def)
  from record_atomic [OF len, of h d k] show ?thesis
    unfolding s by simp
qed

theorem record_all_or_nothing_witness:
  "fst (IndexedView_record (recorded [NDArray (1, 1) [7::int]] () False [(PArr 0, 5::int)]) PNone 2) =
     Inl AttributeError \<and>
   snd (IndexedView_record (recorded [NDArray (1, 1) [7::int]] () False [(PArr 0, 5::int)]) PNone 2) =
     recorded [NDArray (1, 1) [7::int]] () False [(PArr 0, 5::int)] \<and>
   fst (IndexedView_record (recorded [NDArray (1, 1) [7::int]] () False [(PArr 0, 5::int)]) (PArr 0) 2) =
     Inr () \<and>
   iv_data (snd (snd (IndexedView_record
       (recorded [NDArray (1, 1) [7::int]] () False [(PArr 0, 5::int)]) (PArr 0) 2))) =
     [PArr 1, PArr 2] \<and>
   iv_index_labels (snd (snd (IndexedView_record
       (recorded [NDArray (1, 1) [7::int]] () False [(PArr 0, 5::int)]) (PArr 0) 2))) =
     [5, 2]"
proof -
  have "fst (IndexedView_record (recorded [NDArray (1, 1) [7::int]] () False [(PArr 0, 5::int)]) PNone 2) =
     Inl AttributeError"
    by code_simp
  moreover from this
    record_all_or_nothing [of "[NDArray (1, 1) [7::int]]" "()" False "[(PArr 0, 5::int)]" PNone 2]
  have "snd (IndexedView_record (recorded [NDArray (1, 1) [7::int]] () False [(PArr 0, 5::int)]) PNone 2) =
     recorded [NDArray (1, 1) [7::int]] () False [(PArr 0, 5::int)]"
    by auto
  moreover have
    "fst (IndexedView_record (recorded [NDArray (1, 1) [7::int]] () False [(PArr 0, 5::int)]) (PArr 0) 2) =
       Inr ()"
    "iv_data (snd (snd (IndexedView_record
       (recorded [NDArray (1, 1) [7::int]] () False [(PArr 0, 5::int)]) (PArr 0) 2))) =
     [PArr 1, PArr 2]"
    "iv_index_labels (snd (snd (IndexedView_record
       (recorded [NDArray (1, 1) [7::int]] () False [(PArr 0, 5::int)]) (PArr 0) 2))) =
     [5, 2]"
    by code_simp+
  ultimately show ?thesis by simp
qed

subsection \<open>Endpoints \<^verbatim>\<open>None\<close> in unordered mode\<close>

text \<open>
  C10. With \<^verbatim>\<open>indexed_ascending=False\<close>, a slice of which an endpoint is \<^verbatim>\<open>None\<close> raises
  \<^verbatim>\<open>TypeError\<close>: \<^verbatim>\<open>start < stop\<close> is evaluated before anything is filtered, whatever is
  stored.
\<close>

theorem unordered_slice_None_endpoint_raises:
  "\<not> indexed_ascending v \<Longrightarrow> start = None \<or> stop = None \<Longrightarrow>
   IndexedView_getitem v (Slice start stop step) = Inl TypeError"
  by (cases start; cases stop) (auto simp: IndexedView_getitem_def)

theorem unordered_slice_None_endpoint_raises_witness:
  "\<not> indexed_ascending (snd (recorded [NDArray (1, 1) [7::int]] () False [(PArr 0, 2::int)])) \<and>
   ((None :: int option) = None \<or> Some (3::int) = None) \<and>
   IndexedView_getitem (snd (recorded [NDArray (1, 1) [7::int]] () False [(PArr 0, 2::int)]))
     (Slice None (Some 3) None) = Inl TypeError"
proof -
  have flag: "\<not> indexed_ascending
      (snd (recorded [NDArray (1, 1) [7::int]] () False [(PArr 0, 2::int)]))"
    by (simp add: recorded_flag)
  have ends: "(None :: int option) = None \<or> Some (3::int) = None" by simp
  from unordered_slice_None_endpoint_raises [OF flag ends] flag ends show ?thesis by simp
qed

end
